theory Spec2Isabelle
  imports Main
begin

section \<open>Characters and character classes\<close>

text \<open>
  File contents are Python strings. They are modelled as lists of \<^typ>\<open>char\<close>, one per code
  point below 256. The classes below are the ones that the patterns of \<^verbatim>\<open>app.py\<close> use, as
  Python's \<^verbatim>\<open>re\<close> module reads them for a \<^verbatim>\<open>str\<close> pattern.
\<close>

definition dquote :: char where
  "dquote = CHR 0x22"

definition squote :: char where
  "squote = CHR 0x27"

definition is_quote :: "char \<Rightarrow> bool" where
  \<comment> \<open>the class \<^verbatim>\<open>["\']\<close>\<close>
  "is_quote c = (c = dquote \<or> c = squote)"

definition not_quote :: "char \<Rightarrow> bool" where
  \<comment> \<open>the class \<^verbatim>\<open>[^"\']\<close>\<close>
  "not_quote c = (\<not> is_quote c)"

definition any_char :: "char \<Rightarrow> bool" where
  \<comment> \<open>the pattern \<^verbatim>\<open>.\<close>: any character except a newline\<close>
  "any_char c = (c \<noteq> CHR 0x0A)"

definition is_digit :: "char \<Rightarrow> bool" where
  "is_digit c = (48 \<le> (of_char c :: nat) \<and> (of_char c :: nat) \<le> 57)"

definition is_upper :: "char \<Rightarrow> bool" where
  "is_upper c = (65 \<le> (of_char c :: nat) \<and> (of_char c :: nat) \<le> 90)"

definition is_lower :: "char \<Rightarrow> bool" where
  "is_lower c = (97 \<le> (of_char c :: nat) \<and> (of_char c :: nat) \<le> 122)"

definition is_alnum :: "char \<Rightarrow> bool" where
  \<comment> \<open>a member of \<^verbatim>\<open>string.ascii_letters + string.digits\<close>\<close>
  "is_alnum c = (is_lower c \<or> is_upper c \<or> is_digit c)"

definition is_ident :: "char \<Rightarrow> bool" where
  \<comment> \<open>the class \<^verbatim>\<open>[a-zA-Z0-9_-]\<close>\<close>
  "is_ident c = (is_alnum c \<or> c = CHR ''_'' \<or> c = CHR ''-'')"

definition is_space :: "char \<Rightarrow> bool" where
  \<comment> \<open>the class \<^verbatim>\<open>\s\<close>: the code points below 256 for which \<^verbatim>\<open>str.isspace\<close> holds\<close>
  "is_space c = (of_char c \<in> {9, 10, 11, 12, 13, 28, 29, 30, 31, 32, 133, 160 :: nat})"

definition is_trail :: "char \<Rightarrow> bool" where
  \<comment> \<open>the group \<^verbatim>\<open>(\s|[{:,])\<close>: one character, a space or one of the three listed\<close>
  "is_trail c = (is_space c \<or> c = CHR ''{'' \<or> c = CHR '':'' \<or> c = CHR '','')"

definition is_word :: "char \<Rightarrow> bool" where
  \<comment> \<open>the class \<^verbatim>\<open>\w\<close>, which decides \<^verbatim>\<open>\b\<close>: alphanumeric code points below 256 and the underscore\<close>
  "is_word c = (is_alnum c \<or> c = CHR ''_'' \<or>
     (let n = (of_char c :: nat) in
        n \<in> {170, 178, 179, 181, 185, 186, 188, 189, 190} \<or>
        (192 \<le> n \<and> n \<le> 214) \<or> (216 \<le> n \<and> n \<le> 246) \<or> 248 \<le> n))"

section \<open>The fragment of regular expressions that the program uses\<close>

text \<open>
  A pattern is a sequence of items. \<open>Lit\<close> is literal text (also what \<^verbatim>\<open>re.escape\<close> of a
  name matches), \<open>Cls\<close> one character of a class, \<open>Plus\<close> the greedy repetition \<^verbatim>\<open>[...]+\<close> of a
  class, \<open>WordB\<close> the assertion \<^verbatim>\<open>\b\<close>, and \<open>Grp\<close> a capturing group around one item.
\<close>

datatype item =
    Lit string
  | Cls "char \<Rightarrow> bool"
  | Plus "char \<Rightarrow> bool"
  | WordB
  | Grp item

fun is_grp :: "item \<Rightarrow> bool" where
  "is_grp (Grp _) = True"
| "is_grp _ = False"

definition word_boundary :: "char option \<Rightarrow> string \<Rightarrow> bool" where
  \<comment> \<open>\<^verbatim>\<open>\b\<close> holds where exactly one of the two neighbouring characters is a word character;
      outside the string there is none\<close>
  "word_boundary prev s =
     ((case prev of None \<Rightarrow> False | Some c \<Rightarrow> is_word c) \<noteq>
      (case s of [] \<Rightarrow> False | c # _ \<Rightarrow> is_word c))"

text \<open>
  The texts one item may consume at the start of \<open>s\<close>, in the order in which the
  backtracking matcher tries them: a greedy repetition tries the longest run first.
\<close>

fun item_cands :: "item \<Rightarrow> char option \<Rightarrow> string \<Rightarrow> string list" where
  "item_cands (Lit l) prev s = (if take (length l) s = l then [l] else [])"
| "item_cands (Cls p) prev s = (case s of [] \<Rightarrow> [] | c # _ \<Rightarrow> if p c then [[c]] else [])"
| "item_cands (Plus p) prev s =
     map (\<lambda>k. take k s) (rev [1 ..< Suc (length (takeWhile p s))])"
| "item_cands WordB prev s = (if word_boundary prev s then [[]] else [])"
| "item_cands (Grp i) prev s = item_cands i prev s"

fun first_some :: "('a \<Rightarrow> 'b option) \<Rightarrow> 'a list \<Rightarrow> 'b option" where
  "first_some f [] = None"
| "first_some f (x # xs) = (case f x of Some y \<Rightarrow> Some y | None \<Rightarrow> first_some f xs)"

definition prev_after :: "char option \<Rightarrow> string \<Rightarrow> char option" where
  "prev_after prev w = (if w = [] then prev else Some (last w))"

text \<open>
  \<open>match_items pat prev s\<close> matches the pattern at the start of \<open>s\<close>, where \<open>prev\<close> is the
  character before it. It returns the matched text and the texts of the groups.
\<close>

primrec match_items :: "item list \<Rightarrow> char option \<Rightarrow> string \<Rightarrow> (string \<times> string list) option" where
  "match_items [] = (\<lambda>prev s. Some ([], []))"
| "match_items (i # is) = (\<lambda>prev s.
     first_some
       (\<lambda>w. case match_items is (prev_after prev w) (drop (length w) s) of
               None \<Rightarrow> None
             | Some (ws, gs) \<Rightarrow> Some (w @ ws, (if is_grp i then [w] else []) @ gs))
       (item_cands i prev s))"

datatype seg = Chr char | Match string "string list"

text \<open>
  The scan that \<^verbatim>\<open>re.findall\<close> and \<^verbatim>\<open>re.sub\<close> share: try the pattern at each position from the
  left; after a match go on behind it, otherwise one character further. Every pattern of
  the program consumes at least one character; a match of the empty text is passed over.
\<close>

function scan :: "item list \<Rightarrow> char option \<Rightarrow> string \<Rightarrow> seg list" where
  "scan pat prev [] = []"
| "scan pat prev (c # cs) =
     (case match_items pat prev (c # cs) of
        None \<Rightarrow> Chr c # scan pat (Some c) cs
      | Some (w, gs) \<Rightarrow>
          if w = [] then Chr c # scan pat (Some c) cs
          else Match w gs # scan pat (Some (last w)) (drop (length w) (c # cs)))"
  by pat_completeness auto
termination
  by (relation "measure (\<lambda>(pat, prev, s). length s)") auto

fun seg_groups :: "seg \<Rightarrow> string list list" where
  "seg_groups (Chr c) = []"
| "seg_groups (Match w gs) = [gs]"

definition findall :: "item list \<Rightarrow> string \<Rightarrow> string list list" where
  \<comment> \<open>\<^verbatim>\<open>re.findall\<close>: the groups of every match, in order\<close>
  "findall pat s = concat (map seg_groups (scan pat None s))"

fun seg_out :: "(string list \<Rightarrow> string) \<Rightarrow> seg \<Rightarrow> string" where
  "seg_out repl (Chr c) = [c]"
| "seg_out repl (Match w gs) = repl gs"

definition re_sub :: "item list \<Rightarrow> (string list \<Rightarrow> string) \<Rightarrow> string \<Rightarrow> string" where
  \<comment> \<open>\<^verbatim>\<open>re.sub\<close>: every match replaced by the expansion of the template\<close>
  "re_sub pat repl s = concat (map (seg_out repl) (scan pat None s))"

section \<open>The name generator\<close>

text \<open>
  \<^verbatim>\<open>random.choices(population, k=length)\<close> reads one number of the generator per
  character and takes \<^verbatim>\<open>population[floor(random() * n)]\<close>, an index below \<open>n\<close>. The generator
  is modelled as the stream of the numbers it will produce, each reduced to an index.
\<close>

type_synonym rng = "nat \<Rightarrow> nat"

definition alphabet :: string where
  \<comment> \<open>\<^verbatim>\<open>string.ascii_letters + string.digits\<close>\<close>
  "alphabet = ''abcdefghijklmnopqrstuvwxyzABCDEFGHIJKLMNOPQRSTUVWXYZ0123456789''"

definition generate_random_string :: "rng \<Rightarrow> string \<times> rng" where
  "generate_random_string r =
     (map (\<lambda>i. alphabet ! (r i mod length alphabet)) [0 ..< 8], \<lambda>i. r (i + 8))"

section \<open>The rewriters\<close>

type_synonym replacements = "(string \<times> string) list"

definition attr_pat :: "string \<Rightarrow> string \<Rightarrow> item list" where
  \<comment> \<open>\<^verbatim>\<open>rf'class=["\']{re.escape(old_name)}["\']'\<close> and its siblings\<close>
  "attr_pat name old = [Lit name, Cls is_quote, Lit old, Cls is_quote]"

definition attr_repl :: "string \<Rightarrow> string \<Rightarrow> string list \<Rightarrow> string" where
  \<comment> \<open>\<^verbatim>\<open>f'class="{new_name}"'\<close>\<close>
  "attr_repl name new gs = name @ [dquote] @ new @ [dquote]"

definition call_pat :: "string \<Rightarrow> string \<Rightarrow> item list" where
  \<comment> \<open>\<^verbatim>\<open>rf'\bgetElementById\(["\']{re.escape(old_name)}["\']\)'\<close> and its sibling\<close>
  "call_pat name old = [WordB, Lit name, Cls is_quote, Lit old, Cls is_quote, Lit '')'']"

definition call_repl :: "string \<Rightarrow> string \<Rightarrow> string list \<Rightarrow> string" where
  \<comment> \<open>\<^verbatim>\<open>f'getElementById("{new_name}")'\<close>\<close>
  "call_repl name new gs = name @ [dquote] @ new @ [dquote] @ '')''"

definition sel_pat :: "string \<Rightarrow> string \<Rightarrow> item list" where
  \<comment> \<open>\<^verbatim>\<open>rf'\bquerySelector\(["\'].{re.escape(old_name)}["\']\)'\<close> and its sibling; the dot is
      not escaped\<close>
  "sel_pat name old =
     [WordB, Lit name, Cls is_quote, Cls any_char, Lit old, Cls is_quote, Lit '')'']"

definition sel_repl :: "string \<Rightarrow> string \<Rightarrow> string list \<Rightarrow> string" where
  \<comment> \<open>\<^verbatim>\<open>f'querySelector(".{new_name}")'\<close>\<close>
  "sel_repl name new gs = name @ [dquote] @ ''.'' @ new @ [dquote] @ '')''"

text \<open>
  The new name is used as a replacement template. It comes from the name generator, so
  it holds no backslash and the template stands for itself.
\<close>

definition replace_one :: "string \<Rightarrow> string \<Rightarrow> string \<Rightarrow> string" where
  \<comment> \<open>the body of the loop of \<^verbatim>\<open>replace_classnames_ids\<close>\<close>
  "replace_one old new content =
     (let content = re_sub (attr_pat ''class='' old) (attr_repl ''class='' new) content;
          content = re_sub (attr_pat ''className='' old) (attr_repl ''className='' new) content;
          content = re_sub (sel_pat ''querySelector('' old) (sel_repl ''querySelector('' new) content;
          content = re_sub (sel_pat ''querySelectorAll('' old) (sel_repl ''querySelectorAll('' new) content;
          content = re_sub (call_pat ''getElementsByClassName('' old)
                      (call_repl ''getElementsByClassName('' new) content;
          content = re_sub (attr_pat ''id='' old) (attr_repl ''id='' new) content;
          content = re_sub (call_pat ''getElementById('' old) (call_repl ''getElementById('' new) content
      in content)"

fun replace_classnames_ids :: "string \<Rightarrow> replacements \<Rightarrow> string" where
  "replace_classnames_ids content [] = content"
| "replace_classnames_ids content ((old_name, new_name) # rest) =
     replace_classnames_ids (replace_one old_name new_name content) rest"

definition group :: "nat \<Rightarrow> string list \<Rightarrow> string" where
  \<comment> \<open>the text of group \<open>n\<close>, counted from 1\<close>
  "group n gs = (if 0 < n \<and> n \<le> length gs then gs ! (n - 1) else [])"

definition css_pat :: "char \<Rightarrow> string \<Rightarrow> item list" where
  \<comment> \<open>\<^verbatim>\<open>rf'\.({re.escape(old_name)})(\s|[{{:,])'\<close> and the same with \<^verbatim>\<open>#\<close>\<close>
  "css_pat d old = [Lit [d], Grp (Lit old), Grp (Cls is_trail)]"

definition css_repl :: "char \<Rightarrow> string \<Rightarrow> string list \<Rightarrow> string" where
  \<comment> \<open>\<^verbatim>\<open>rf'.{new_name}\2'\<close> and the same with \<^verbatim>\<open>#\<close>\<close>
  "css_repl d new gs = [d] @ new @ group 2 gs"

definition replace_one_css :: "string \<Rightarrow> string \<Rightarrow> string \<Rightarrow> string" where
  \<comment> \<open>the body of the loop of \<^verbatim>\<open>replace_classnames_ids_css\<close>\<close>
  "replace_one_css old new content =
     (let content = re_sub (css_pat CHR ''.'' old) (css_repl CHR ''.'' new) content;
          content = re_sub (css_pat CHR ''#'' old) (css_repl CHR ''#'' new) content
      in content)"

fun replace_classnames_ids_css :: "string \<Rightarrow> replacements \<Rightarrow> string" where
  "replace_classnames_ids_css content [] = content"
| "replace_classnames_ids_css content ((old_name, new_name) # rest) =
     replace_classnames_ids_css (replace_one_css old_name new_name content) rest"

section \<open>The scanners\<close>

text \<open>
  A Python set is modelled as a list without duplicates. Python fixes no iteration order
  for a set; the model lists the elements in one fixed order, and the
  results on the mapping below are stated for every order.
\<close>

definition set_of :: "'a list \<Rightarrow> 'a list" where
  \<comment> \<open>\<^verbatim>\<open>set(xs)\<close>\<close>
  "set_of xs = remdups xs"

definition update :: "'a list \<Rightarrow> 'a list \<Rightarrow> 'a list" where
  \<comment> \<open>\<^verbatim>\<open>s.update(xs)\<close>\<close>
  "update s xs = s @ filter (\<lambda>x. x \<notin> set s) (set_of xs)"

definition find_attr :: "string \<Rightarrow> item list" where
  \<comment> \<open>\<^verbatim>\<open>r'class=["\']([^"\']+)["\']'\<close> and the same with \<^verbatim>\<open>id\<close>\<close>
  "find_attr name = [Lit name, Cls is_quote, Grp (Plus not_quote), Cls is_quote]"

definition find_call :: "string \<Rightarrow> item list" where
  \<comment> \<open>\<^verbatim>\<open>r'getElementById\(["\']([^"\']+)["\']\)'\<close> and its sibling\<close>
  "find_call name = [Lit name, Cls is_quote, Grp (Plus not_quote), Cls is_quote, Lit '')'']"

definition find_sel :: "string \<Rightarrow> item list" where
  \<comment> \<open>\<^verbatim>\<open>r'querySelector\(["\'].([^"\']+)["\']\)'\<close> and its sibling\<close>
  "find_sel name =
     [Lit name, Cls is_quote, Cls any_char, Grp (Plus not_quote), Cls is_quote, Lit '')'']"

definition findall1 :: "item list \<Rightarrow> string \<Rightarrow> string list" where
  \<comment> \<open>\<^verbatim>\<open>re.findall\<close> on a pattern with one group gives the text of that group\<close>
  "findall1 pat s = map (group 1) (findall pat s)"

definition find_classnames_ids :: "string \<Rightarrow> string list \<times> string list" where
  "find_classnames_ids content =
     (let classnames = set_of (findall1 (find_attr ''class='') content);
          ids = set_of (findall1 (find_attr ''id='') content);
          classnames_js = set_of (findall1 (find_sel ''querySelector('') content);
          classnames_js = update classnames_js (findall1 (find_sel ''querySelectorAll('') content);
          classnames_js = update classnames_js
                            (findall1 (find_call ''getElementsByClassName('') content);
          ids_js = set_of (findall1 (find_call ''getElementById('') content);
          classnames = update classnames classnames_js;
          ids = update ids ids_js
      in (classnames, ids))"

definition find_css :: "char \<Rightarrow> item list" where
  \<comment> \<open>\<^verbatim>\<open>r'\.([a-zA-Z0-9_-]+)(\s|[{{:,])'\<close> and the same with \<^verbatim>\<open>#\<close>; the class in the second
      group lists the brace twice\<close>
  "find_css d = [Lit [d], Grp (Plus is_ident), Grp (Cls is_trail)]"

definition find_classnames_ids_css :: "string \<Rightarrow> string list \<times> string list" where
  "find_classnames_ids_css content =
     (let classnames = set_of (findall (find_css CHR ''.'') content);
          ids = set_of (findall (find_css CHR ''#'') content)
      in (set_of (map (group 1) classnames), set_of (map (group 1) ids)))"

section \<open>Files, exceptions and the log\<close>

datatype exn = FileNotFoundError | PermissionError | OtherError nat

record file_state =
  rd :: "exn + string"  \<comment> \<open>what opening for reading and reading gives\<close>
  wr :: "exn option"    \<comment> \<open>the exception that opening for writing raises, if any\<close>

type_synonym fs = "string \<Rightarrow> file_state"

definition read_file :: "fs \<Rightarrow> string \<Rightarrow> exn + string" where
  "read_file f p = rd (f p)"

definition write_file :: "fs \<Rightarrow> string \<Rightarrow> string \<Rightarrow> exn + fs" where
  "write_file f p content =
     (case wr (f p) of
        Some e \<Rightarrow> Inl e
      | None \<Rightarrow> Inr (f(p := (f p)\<lparr>rd := Inr content\<rparr>)))"

datatype msg =
    Scanning string           \<comment> \<open>debug: \<^verbatim>\<open>Scanning file: ...\<close>\<close>
  | FileNotFound string       \<comment> \<open>error: \<^verbatim>\<open>File not found: ...\<close>\<close>
  | PermissionDenied string   \<comment> \<open>error: \<^verbatim>\<open>Permission error: ...\<close>\<close>
  | Dictionary replacements   \<comment> \<open>debug: \<^verbatim>\<open>Replacements dictionary: ...\<close>\<close>
  | Processing string         \<comment> \<open>debug: \<^verbatim>\<open>Processing file: ...\<close>\<close>
  | Processed string          \<comment> \<open>debug: \<^verbatim>\<open>Processed file: ...\<close>\<close>
  | Completed                 \<comment> \<open>info: \<^verbatim>\<open>Class names and IDs have been replaced ...\<close>\<close>

record world =
  files_of :: fs
  log :: "msg list"

datatype 'a outcome = Returned 'a | Raised exn world

definition logging :: "msg \<Rightarrow> world \<Rightarrow> world" where
  "logging m w = w\<lparr>log := log w @ [m]\<rparr>"

definition endswith :: "string \<Rightarrow> string \<Rightarrow> bool" where
  "endswith s suf = (length suf \<le> length s \<and> drop (length s - length suf) s = suf)"

section \<open>The driver\<close>

text \<open>The first loop of \<^verbatim>\<open>process_files\<close>, carrying the two sets and the world.\<close>

fun scan_phase ::
  "string list \<Rightarrow> string list \<times> string list \<times> world \<Rightarrow> (string list \<times> string list \<times> world) outcome" where
  "scan_phase [] st = Returned st"
| "scan_phase (file_path # rest) (all_classnames, all_ids, w) =
     (let w = logging (Scanning file_path) w in
      case read_file (files_of w) file_path of
        Inr content \<Rightarrow>
          (let (classnames, ids) =
                 (if endswith file_path ''.css'' then find_classnames_ids_css content
                  else find_classnames_ids content)
           in scan_phase rest (update all_classnames classnames, update all_ids ids, w))
      | Inl FileNotFoundError \<Rightarrow>
          scan_phase rest (all_classnames, all_ids, logging (FileNotFound file_path) w)
      | Inl PermissionError \<Rightarrow>
          scan_phase rest (all_classnames, all_ids, logging (PermissionDenied file_path) w)
      | Inl e \<Rightarrow> Raised e w)"

text \<open>The two loops that fill the dictionary; both have the same body.\<close>

fun add_names :: "string list \<Rightarrow> replacements \<times> rng \<Rightarrow> replacements \<times> rng" where
  "add_names [] st = st"
| "add_names (name # rest) (replacements, r) =
     (if name \<notin> set (map fst replacements)
      then (let (token, r') = generate_random_string r
            in add_names rest (replacements @ [(name, token)], r'))
      else add_names rest (replacements, r))"

definition mapping_phase :: "string list \<Rightarrow> string list \<Rightarrow> rng \<Rightarrow> replacements \<times> rng" where
  "mapping_phase all_classnames all_ids r = add_names all_ids (add_names all_classnames ([], r))"

text \<open>The second loop of \<^verbatim>\<open>process_files\<close>.\<close>

fun rewrite_phase :: "replacements \<Rightarrow> string list \<Rightarrow> world \<Rightarrow> world outcome" where
  "rewrite_phase replacements [] w = Returned w"
| "rewrite_phase replacements (file_path # rest) w =
     (let w = logging (Processing file_path) w in
      case read_file (files_of w) file_path of
        Inr content \<Rightarrow>
          (let content =
                 (if endswith file_path ''.css'' then replace_classnames_ids_css content replacements
                  else replace_classnames_ids content replacements)
           in case write_file (files_of w) file_path content of
                Inr f \<Rightarrow> rewrite_phase replacements rest (logging (Processed file_path) (w\<lparr>files_of := f\<rparr>))
              | Inl FileNotFoundError \<Rightarrow> rewrite_phase replacements rest (logging (FileNotFound file_path) w)
              | Inl PermissionError \<Rightarrow> rewrite_phase replacements rest (logging (PermissionDenied file_path) w)
              | Inl e \<Rightarrow> Raised e w)
      | Inl FileNotFoundError \<Rightarrow> rewrite_phase replacements rest (logging (FileNotFound file_path) w)
      | Inl PermissionError \<Rightarrow> rewrite_phase replacements rest (logging (PermissionDenied file_path) w)
      | Inl e \<Rightarrow> Raised e w)"

definition process_files :: "rng \<Rightarrow> string list \<Rightarrow> world \<Rightarrow> world outcome" where
  "process_files r files w =
     (case scan_phase files ([], [], w) of
        Raised e w' \<Rightarrow> Raised e w'
      | Returned (all_classnames, all_ids, w) \<Rightarrow>
          (let (replacements, r') = mapping_phase all_classnames all_ids r;
               w = logging (Dictionary replacements) w
           in case rewrite_phase replacements files w of
                Raised e w' \<Rightarrow> Raised e w'
              | Returned w \<Rightarrow> Returned (logging Completed w)))"

definition files :: "string list" where
  "files = [''index.html'', ''script.js'', ''style.css'']"

section \<open>Vocabulary of the properties\<close>

definition sub_from :: "item list \<Rightarrow> (string list \<Rightarrow> string) \<Rightarrow> char option \<Rightarrow> string \<Rightarrow> string" where
  \<comment> \<open>the substitution on the rest of a string, behind the character \<open>prev\<close>\<close>
  "sub_from pat repl prev s = concat (map (seg_out repl) (scan pat prev s))"

definition is_token :: "string \<Rightarrow> bool" where
  \<comment> \<open>an 8-character string of ASCII letters and digits\<close>
  "is_token t = (length t = 8 \<and> list_all is_alnum t)"

definition found_in :: "fs \<Rightarrow> string \<Rightarrow> string list" where
  \<comment> \<open>the identifiers, class names and IDs alike, that the scanner finds in one file\<close>
  "found_in f p =
     (case read_file f p of
        Inl _ \<Rightarrow> []
      | Inr content \<Rightarrow>
          (let (classnames, ids) =
                 (if endswith p ''.css'' then find_classnames_ids_css content
                  else find_classnames_ids content)
           in classnames @ ids))"

definition caught :: "exn \<Rightarrow> bool" where
  \<comment> \<open>the two exceptions that the \<^verbatim>\<open>except\<close> clauses name\<close>
  "caught e = (e = FileNotFoundError \<or> e = PermissionError)"

definition read_error :: "fs \<Rightarrow> string \<Rightarrow> exn option" where
  "read_error f p = (case rd (f p) of Inl e \<Rightarrow> Some e | Inr _ \<Rightarrow> None)"

definition failure_msg :: "exn \<Rightarrow> string \<Rightarrow> msg list" where
  "failure_msg e p =
     (case e of FileNotFoundError \<Rightarrow> [FileNotFound p] | PermissionError \<Rightarrow> [PermissionDenied p]
      | OtherError _ \<Rightarrow> [])"

definition scan_msgs :: "fs \<Rightarrow> string \<Rightarrow> msg list" where
  \<comment> \<open>what the scan phase logs for one file\<close>
  "scan_msgs f p =
     Scanning p # (case read_error f p of Some e \<Rightarrow> failure_msg e p | None \<Rightarrow> [])"

definition rewrite_msgs :: "fs \<Rightarrow> string \<Rightarrow> msg list" where
  \<comment> \<open>what the rewrite phase logs for one file\<close>
  "rewrite_msgs f p =
     Processing p #
       (case read_error f p of
          Some e \<Rightarrow> failure_msg e p
        | None \<Rightarrow> (case wr (f p) of Some e \<Rightarrow> failure_msg e p | None \<Rightarrow> [Processed p]))"

definition read_uncaught :: "fs \<Rightarrow> string \<Rightarrow> bool" where
  "read_uncaught f p = (case read_error f p of Some e \<Rightarrow> \<not> caught e | None \<Rightarrow> False)"

definition uncaught_at :: "fs \<Rightarrow> string \<Rightarrow> bool" where
  \<comment> \<open>reading the file, or writing it after reading it, raises another exception\<close>
  "uncaught_at f p =
     (case read_error f p of
        Some e \<Rightarrow> \<not> caught e
      | None \<Rightarrow> (case wr (f p) of Some e \<Rightarrow> \<not> caught e | None \<Rightarrow> False))"

definition rewritten :: "replacements \<Rightarrow> string \<Rightarrow> string \<Rightarrow> string" where
  "rewritten reps p content =
     (if endswith p ''.css'' then replace_classnames_ids_css content reps
      else replace_classnames_ids content reps)"

definition rewrite_file :: "replacements \<Rightarrow> fs \<Rightarrow> string \<Rightarrow> file_state" where
  \<comment> \<open>the file after the rewrite phase: rewritten when it can be read and written\<close>
  "rewrite_file reps f p =
     (case rd (f p) of
        Inl _ \<Rightarrow> f p
      | Inr content \<Rightarrow>
          (case wr (f p) of Some _ \<Rightarrow> f p | None \<Rightarrow> (f p)\<lparr>rd := Inr (rewritten reps p content)\<rparr>))"

definition same_status :: "fs \<Rightarrow> fs \<Rightarrow> bool" where
  "same_status f' f = (\<forall>q. read_error f' q = read_error f q \<and> wr (f' q) = wr (f q))"

definition example_html :: string where
  "example_html = ''<div class='' @ [dquote] @ ''hero'' @ [dquote] @
                  '' id='' @ [squote] @ ''hero'' @ [squote] @ ''>''"

definition example_css :: string where
  "example_css = ''.hero { color: red; } #nav, ''"

definition example_fs :: fs where
  \<comment> \<open>a page and a stylesheet; the script is missing\<close>
  "example_fs p =
     (if p = ''index.html'' then \<lparr>rd = Inr example_html, wr = None\<rparr>
      else if p = ''style.css'' then \<lparr>rd = Inr example_css, wr = None\<rparr>
      else \<lparr>rd = Inl FileNotFoundError, wr = None\<rparr>)"

definition example_world :: world where
  "example_world = \<lparr>files_of = example_fs, log = []\<rparr>"

definition broken_world :: world where
  \<comment> \<open>the same files, but reading the script raises some other exception\<close>
  "broken_world =
     \<lparr>files_of = example_fs(''script.js'' := \<lparr>rd = Inl (OtherError 0), wr = None\<rparr>), log = []\<rparr>"

text \<open>
  The stylesheet rewriter as the specification words it, for names made of identifier
  characters: one pass from the left; behind a dot or a hash, the run of identifier
  characters is replaced by its token when the run is a key and a trailing character
  follows, which is kept; everything else is copied. The map may differ for the dot and
  the hash.
\<close>

function css_single_pass :: "(char \<Rightarrow> string \<Rightarrow> string option) \<Rightarrow> string \<Rightarrow> string" where
  "css_single_pass m [] = []"
| "css_single_pass m (c # cs) =
     (if c = CHR ''.'' \<or> c = CHR ''#'' then
        (case dropWhile is_ident cs of
           [] \<Rightarrow> c # css_single_pass m cs
         | t # rest \<Rightarrow>
             (case (if is_trail t then m c (takeWhile is_ident cs) else None) of
                Some new \<Rightarrow> c # new @ t # css_single_pass m rest
              | None \<Rightarrow> c # css_single_pass m cs))
      else c # css_single_pass m cs)"
  by pat_completeness auto
termination
proof (relation "measure (\<lambda>(m, s). length s)")
  fix m :: "char \<Rightarrow> string \<Rightarrow> string option" and c :: char and cs t rest
  assume "dropWhile is_ident cs = t # rest"
  then have "length (t # rest) \<le> length cs" by (metis length_dropWhile_le)
  then show "((m, rest), (m, c # cs)) \<in> measure (\<lambda>(m, s). length s)" by simp
qed simp_all

definition css_names :: "replacements \<Rightarrow> bool" where
  \<comment> \<open>distinct keys and tokens of identifier characters, no token being a key\<close>
  "css_names reps =
     (distinct (map fst reps) \<and>
      list_all (\<lambda>kv. list_all is_ident (fst kv) \<and> list_all is_ident (snd kv) \<and>
                     snd kv \<notin> set (map fst reps)) reps)"

text \<open>
  The seven substitutions of \<^verbatim>\<open>replace_classnames_ids\<close> come in three kinds: an attribute
  (\<^verbatim>\<open>class=\<close>, \<^verbatim>\<open>className=\<close>, \<^verbatim>\<open>id=\<close>), a selector call with the unescaped dot, and a call
  with the bare name. A shape is a kind with the literal text in front of the first quote.
\<close>

datatype kind = Attr | Sel | Call

type_synonym shape = "kind \<times> string"

definition shapes :: "shape list" where
  \<comment> \<open>in the order of the seven \<^verbatim>\<open>re.sub\<close> calls\<close>
  "shapes =
     [(Attr, ''class=''), (Attr, ''className=''), (Sel, ''querySelector(''),
      (Sel, ''querySelectorAll(''), (Call, ''getElementsByClassName(''), (Attr, ''id=''),
      (Call, ''getElementById('')]"

fun shape_pat :: "shape \<Rightarrow> string \<Rightarrow> item list" where
  "shape_pat (Attr, name) old = attr_pat name old"
| "shape_pat (Sel, name) old = sel_pat name old"
| "shape_pat (Call, name) old = call_pat name old"

fun shape_repl :: "shape \<Rightarrow> string \<Rightarrow> string list \<Rightarrow> string" where
  "shape_repl (Attr, name) new = attr_repl name new"
| "shape_repl (Sel, name) new = sel_repl name new"
| "shape_repl (Call, name) new = call_repl name new"

fun bounded :: "kind \<Rightarrow> bool" where
  \<comment> \<open>the pattern starts with \<^verbatim>\<open>\b\<close>\<close>
  "bounded Attr = False"
| "bounded Sel = True"
| "bounded Call = True"

fun closing :: "kind \<Rightarrow> string" where
  \<comment> \<open>the text behind the second quote\<close>
  "closing Attr = []"
| "closing Sel = '')''"
| "closing Call = '')''"

fun middle :: "kind \<Rightarrow> string \<Rightarrow> bool" where
  \<comment> \<open>the text between the first quote and the name: one character for a selector\<close>
  "middle Sel y = (case y of [c] \<Rightarrow> any_char c | _ \<Rightarrow> False)"
| "middle k y = (y = [])"

definition site_text :: "shape \<Rightarrow> char \<Rightarrow> string \<Rightarrow> string \<Rightarrow> char \<Rightarrow> string" where
  \<comment> \<open>an occurrence: the literal text, a quote, the middle, the name, a quote, the closing text\<close>
  "site_text sh q y r q' = snd sh @ q # y @ r @ q' # closing (fst sh)"

definition shape_out :: "shape \<Rightarrow> string \<Rightarrow> string" where
  \<comment> \<open>what replaces an occurrence: double quotes, and a dot for a selector\<close>
  "shape_out sh tok =
     snd sh @ dquote # (if fst sh = Sel then ''.'' else []) @ tok @ dquote # closing (fst sh)"

definition strip_lit :: "string \<Rightarrow> string \<Rightarrow> string option" where
  "strip_lit l s = (if take (length l) s = l then Some (drop (length l) s) else None)"

definition strip_cls :: "(char \<Rightarrow> bool) \<Rightarrow> string \<Rightarrow> string option" where
  "strip_cls p s = (case s of [] \<Rightarrow> None | c # cs \<Rightarrow> if p c then Some cs else None)"

definition site_at :: "shape \<Rightarrow> char option \<Rightarrow> string \<Rightarrow> (string \<times> nat) option" where
  \<comment> \<open>an occurrence of the shape at the start of \<open>s\<close>, around a run of identifier characters:
      the run and the length of the occurrence\<close>
  "site_at sh pv s =
     (if bounded (fst sh) \<and> \<not> word_boundary pv s then None
      else case strip_lit (snd sh) s of None \<Rightarrow> None | Some s1 \<Rightarrow>
           case strip_cls is_quote s1 of None \<Rightarrow> None | Some s2 \<Rightarrow>
           case (if fst sh = Sel then strip_cls any_char s2 else Some s2) of None \<Rightarrow> None | Some s3 \<Rightarrow>
           case strip_cls is_quote (dropWhile is_ident s3) of None \<Rightarrow> None | Some s4 \<Rightarrow>
           case strip_lit (closing (fst sh)) s4 of None \<Rightarrow> None | Some s5 \<Rightarrow>
             Some (takeWhile is_ident s3, length s - length s5))"

fun find_site :: "shape list \<Rightarrow> char option \<Rightarrow> string \<Rightarrow> (shape \<times> string \<times> nat) option" where
  "find_site [] pv s = None"
| "find_site (sh # shs) pv s =
     (case site_at sh pv s of Some (r, n) \<Rightarrow> Some (sh, r, n) | None \<Rightarrow> find_site shs pv s)"

text \<open>
  The markup and script rewriter as the specification words it, for names made of
  identifier characters: one pass from the left; an occurrence of one of the seven shapes
  whose name is a key is replaced by the same shape around the token, in double quotes;
  everything else is copied. The map may differ from shape to shape.
\<close>

function html_single_pass ::
  "(shape \<Rightarrow> string \<Rightarrow> string option) \<Rightarrow> char option \<Rightarrow> string \<Rightarrow> string" where
  "html_single_pass m pv [] = []"
| "html_single_pass m pv (c # cs) =
     (case find_site shapes pv (c # cs) of
        None \<Rightarrow> c # html_single_pass m (Some c) cs
      | Some (sh, r, n) \<Rightarrow>
          (case m sh r of
             None \<Rightarrow> c # html_single_pass m (Some c) cs
           | Some tok \<Rightarrow>
               shape_out sh tok @
               html_single_pass m (Some (last (take n (c # cs)))) (drop (n - 1) cs)))"
  by pat_completeness auto
termination
  by (relation "measure (\<lambda>(m, pv, s). length s)") auto

definition word_before :: "char option \<Rightarrow> bool" where
  \<comment> \<open>whether the character before a position is a word character\<close>
  "word_before pv = (case pv of None \<Rightarrow> False | Some c \<Rightarrow> is_word c)"

definition starts :: "string \<Rightarrow> string \<Rightarrow> bool" where
  \<comment> \<open>the text begins with the literal text of a shape and a quote\<close>
  "starts name s = (\<exists>q rest. s = name @ q # rest \<and> is_quote q)"

section \<open>Basic facts\<close>

lemma files_of_logging [simp]: "files_of (logging m w) = files_of w"
  by (simp add: logging_def)

lemma log_logging [simp]: "log (logging m w) = log w @ [m]"
  by (simp add: logging_def)

lemma set_set_of [simp]: "set (set_of xs) = set xs"
  by (simp add: set_of_def)

lemma set_update [simp]: "set (update s xs) = set s \<union> set xs"
  by (auto simp: update_def)

section \<open>Facts about the matcher\<close>






lemma match_Lit:
  "match_items (Lit l # its) prev s =
     (if take (length l) s = l
      then (case match_items its (prev_after prev l) (drop (length l) s) of
              None \<Rightarrow> None | Some (ws, gs) \<Rightarrow> Some (l @ ws, gs))
      else None)"
  by (simp split: option.splits)

lemma match_Cls:
  "match_items (Cls p # its) prev s =
     (case s of [] \<Rightarrow> None
      | c # cs \<Rightarrow> if p c then (case match_items its (Some c) cs of
              None \<Rightarrow> None | Some (ws, gs) \<Rightarrow> Some (c # ws, gs)) else None)"
  by (simp add: prev_after_def split: list.splits option.splits)

lemma match_WordB:
  "match_items (WordB # its) prev s =
     (if word_boundary prev s then match_items its prev s else None)"
  by (auto simp: prev_after_def split: option.splits)

lemma match_Grp_Lit:
  "match_items (Grp (Lit l) # its) prev s =
     (if take (length l) s = l
      then (case match_items its (prev_after prev l) (drop (length l) s) of
              None \<Rightarrow> None | Some (ws, gs) \<Rightarrow> Some (l @ ws, l # gs))
      else None)"
  by (simp split: option.splits)

lemma match_Grp_Cls:
  "match_items (Grp (Cls p) # its) prev s =
     (case s of [] \<Rightarrow> None
      | c # cs \<Rightarrow> if p c then (case match_items its (Some c) cs of
              None \<Rightarrow> None | Some (ws, gs) \<Rightarrow> Some (c # ws, [c] # gs)) else None)"
  by (simp add: prev_after_def split: list.splits option.splits)

lemma take_is_prefix: "take (length l) s = l \<longleftrightarrow> (\<exists>rest. s = l @ rest)"
  by (metis append_eq_conv_conj append_take_drop_id)

lemma take_dropD: "take n xs = a \<Longrightarrow> drop n xs = b \<Longrightarrow> xs = a @ b"
  by (metis append_take_drop_id)

lemma css_pat_match:
  "match_items (css_pat d old) prev s =
     (if \<exists>t rest. s = d # old @ t # rest \<and> is_trail t
      then Some (d # old @ [hd (drop (Suc (length old)) s)], [old, [hd (drop (Suc (length old)) s)]])
      else None)"
proof (cases "\<exists>t rest. s = d # old @ t # rest \<and> is_trail t")
  case True
  then obtain t rest where s: "s = d # old @ t # rest" "is_trail t" by blast
  then show ?thesis
    unfolding css_pat_def match_Lit match_Grp_Lit match_Grp_Cls by simp
next
  case False
  have "match_items (css_pat d old) prev s = None"
  proof (rule ccontr)
    assume "match_items (css_pat d old) prev s \<noteq> None"
    then obtain w gs where "match_items (css_pat d old) prev s = Some (w, gs)" by auto
    then have "\<exists>t rest. s = d # old @ t # rest \<and> is_trail t"
      unfolding css_pat_def match_Lit match_Grp_Lit match_Grp_Cls
      by (cases s) (auto split: if_splits list.splits option.splits dest: take_dropD)
    then show False using False by simp
  qed
  then show ?thesis using False by simp
qed



lemma scan_Chr:
  "match_items pat prev (c # cs) = None \<Longrightarrow> scan pat prev (c # cs) = Chr c # scan pat (Some c) cs"
  by simp

lemma scan_Match:
  "match_items pat prev (c # cs) = Some (w, gs) \<Longrightarrow> w \<noteq> [] \<Longrightarrow>
   scan pat prev (c # cs) = Match w gs # scan pat (Some (last w)) (drop (length w) (c # cs))"
  by simp

lemma scan_Match_append:
  assumes "match_items pat prev (w @ rest) = Some (w, gs)" and "w \<noteq> []"
  shows "scan pat prev (w @ rest) = Match w gs # scan pat (Some (last w)) rest"
proof -
  obtain c cs where "w @ rest = c # cs" using assms(2) by (cases w) auto
  then show ?thesis using assms scan_Match [of pat prev c cs w gs] by (metis append_eq_conv_conj)
qed


lemma scan_skip:
  "(\<And>i pv. i < length u \<Longrightarrow> match_items pat pv (drop i u @ y) = None) \<Longrightarrow>
   scan pat prev (u @ y) = map Chr u @ scan pat (prev_after prev u) y"
proof (induction u arbitrary: prev)
  case Nil
  then show ?case by (simp add: prev_after_def)
next
  case (Cons c u)
  have here: "match_items pat prev (c # u @ y) = None" using Cons.prems [of 0 prev] by simp
  have rest: "\<And>i pv. i < length u \<Longrightarrow> match_items pat pv (drop i u @ y) = None"
    using Cons.prems [of "Suc _"] by simp
  have "scan pat (Some c) (u @ y) = map Chr u @ scan pat (prev_after (Some c) u) y"
    using rest by (rule Cons.IH)
  moreover have "prev_after (Some c) u = prev_after prev (c # u)" by (simp add: prev_after_def)
  ultimately show ?case using here by simp
qed


lemma match_Nil: "match_items [] prev s = Some ([], [])"
  by simp

declare match_items.simps(2) [simp del]

section \<open>The mapping phase\<close>


lemma alphabet_alnum: "list_all is_alnum alphabet"
  by (simp add: alphabet_def is_alnum_def is_lower_def is_upper_def is_digit_def)

lemma alphabet_nth_alnum: "is_alnum (alphabet ! (n mod length alphabet))"
proof -
  have "n mod length alphabet < length alphabet" by (simp add: alphabet_def)
  then show ?thesis using alphabet_alnum by (simp add: list_all_length)
qed

lemma generate_random_string_token: "is_token (fst (generate_random_string r))"
  by (simp add: generate_random_string_def is_token_def list_all_iff alphabet_nth_alnum)

lemma add_names_keys:
  "set (map fst (fst (add_names ns (reps, r)))) = set (map fst reps) \<union> set ns"
proof (induction ns arbitrary: reps r)
  case Nil
  show ?case by simp
next
  case (Cons n ns)
  show ?case
  proof (cases "n \<in> set (map fst reps)")
    case True
    then show ?thesis using Cons.IH [of reps r] by auto
  next
    case False
    obtain t r' where g: "generate_random_string r = (t, r')" by (cases "generate_random_string r")
    show ?thesis using False g Cons.IH [of "reps @ [(n, t)]" r'] by auto
  qed
qed

lemma add_names_distinct:
  "distinct (map fst reps) \<Longrightarrow> distinct (map fst (fst (add_names ns (reps, r))))"
proof (induction ns arbitrary: reps r)
  case Nil
  then show ?case by simp
next
  case (Cons n ns)
  show ?case
  proof (cases "n \<in> set (map fst reps)")
    case True
    then show ?thesis using Cons.IH [of reps r] Cons.prems by auto
  next
    case False
    obtain t r' where g: "generate_random_string r = (t, r')" by (cases "generate_random_string r")
    have "distinct (map fst (reps @ [(n, t)]))" using False Cons.prems by auto
    then show ?thesis using False g Cons.IH [of "reps @ [(n, t)]" r'] by auto
  qed
qed

lemma add_names_tokens:
  "list_all (\<lambda>kv. is_token (snd kv)) reps \<Longrightarrow>
   list_all (\<lambda>kv. is_token (snd kv)) (fst (add_names ns (reps, r)))"
proof (induction ns arbitrary: reps r)
  case Nil
  then show ?case by simp
next
  case (Cons n ns)
  show ?case
  proof (cases "n \<in> set (map fst reps)")
    case True
    then show ?thesis using Cons.IH [of reps r] Cons.prems by auto
  next
    case False
    obtain t r' where g: "generate_random_string r = (t, r')" by (cases "generate_random_string r")
    have "is_token t" using generate_random_string_token [of r] g by simp
    then have "list_all (\<lambda>kv. is_token (snd kv)) (reps @ [(n, t)])" using Cons.prems by simp
    then show ?thesis using False g Cons.IH [of "reps @ [(n, t)]" r'] by auto
  qed
qed

lemma mapping_phase_keys:
  "set (map fst (fst (mapping_phase cs ids r))) = set cs \<union> set ids"
proof -
  obtain reps r' where a: "add_names cs ([], r) = (reps, r')" by (cases "add_names cs ([], r)")
  have "set (map fst reps) = set cs" using add_names_keys [of cs "[]" r] a by simp
  then show ?thesis using add_names_keys [of ids reps r'] a by (simp add: mapping_phase_def)
qed

lemma mapping_phase_distinct: "distinct (map fst (fst (mapping_phase cs ids r)))"
proof -
  obtain reps r' where a: "add_names cs ([], r) = (reps, r')" by (cases "add_names cs ([], r)")
  have "distinct (map fst reps)" using add_names_distinct [of "[]" cs r] a by simp
  then show ?thesis using add_names_distinct [of reps ids r'] a by (simp add: mapping_phase_def)
qed

lemma mapping_phase_tokens:
  "list_all (\<lambda>kv. is_token (snd kv)) (fst (mapping_phase cs ids r))"
proof -
  obtain reps r' where a: "add_names cs ([], r) = (reps, r')" by (cases "add_names cs ([], r)")
  have "list_all (\<lambda>kv. is_token (snd kv)) reps" using add_names_tokens [of "[]" cs r] a by simp
  then show ?thesis using add_names_tokens [of reps ids r'] a by (simp add: mapping_phase_def)
qed


lemma scan_phase_found:
  "scan_phase fl (a, b, w) = Returned (a', b', w') \<Longrightarrow>
   set a' \<union> set b' = set a \<union> set b \<union> (\<Union>p \<in> set fl. set (found_in (files_of w) p))"
proof (induction fl arbitrary: a b w)
  case Nil
  then show ?case by auto
next
  case (Cons p fl)
  let ?w1 = "logging (Scanning p) w"
  show ?case
  proof (cases "rd (files_of w p)")
    case (Inr content)
    obtain cs ids where sc: "(if endswith p ''.css'' then find_classnames_ids_css content
        else find_classnames_ids content) = (cs, ids)" by fastforce
    have "scan_phase fl (update a cs, update b ids, ?w1) = Returned (a', b', w')"
      using Cons.prems Inr sc by (simp add: read_file_def Let_def)
    then have "set a' \<union> set b' = set (update a cs) \<union> set (update b ids) \<union>
        (\<Union>q \<in> set fl. set (found_in (files_of ?w1) q))"
      by (rule Cons.IH)
    moreover have "set (found_in (files_of w) p) = set cs \<union> set ids"
      using Inr sc by (simp add: found_in_def read_file_def)
    ultimately show ?thesis by auto
  next
    case (Inl e)
    have fi: "set (found_in (files_of w) p) = {}" using Inl by (simp add: found_in_def read_file_def)
    show ?thesis
    proof (cases e)
      case FileNotFoundError
      then have "scan_phase fl (a, b, logging (FileNotFound p) ?w1) = Returned (a', b', w')"
        using Cons.prems Inl by (simp add: read_file_def Let_def)
      then have "set a' \<union> set b' = set a \<union> set b \<union>
          (\<Union>q \<in> set fl. set (found_in (files_of (logging (FileNotFound p) ?w1)) q))"
        by (rule Cons.IH)
      then show ?thesis using fi by simp
    next
      case PermissionError
      then have "scan_phase fl (a, b, logging (PermissionDenied p) ?w1) = Returned (a', b', w')"
        using Cons.prems Inl by (simp add: read_file_def Let_def)
      then have "set a' \<union> set b' = set a \<union> set b \<union>
          (\<Union>q \<in> set fl. set (found_in (files_of (logging (PermissionDenied p) ?w1)) q))"
        by (rule Cons.IH)
      then show ?thesis using fi by simp
    next
      case (OtherError n)
      then show ?thesis using Cons.prems Inl by (simp add: read_file_def Let_def)
    qed
  qed
qed

text \<open>
  Claim C1. When the scan phase returns, the dictionary built from the two sets, in whatever
  order they are iterated, has as many entries as there are distinct identifiers in the
  readable files, and every value is a string of 8 ASCII letters and digits.
\<close>

theorem replacement_map_size_and_tokens:
  assumes "scan_phase fl ([], [], w) = Returned (all_classnames, all_ids, w')"
    and "set cs = set all_classnames" and "set ids = set all_ids"
  shows "length (fst (mapping_phase cs ids r)) = card (\<Union>p \<in> set fl. set (found_in (files_of w) p)) \<and>
         list_all (\<lambda>kv. is_token (snd kv)) (fst (mapping_phase cs ids r))"
proof -
  let ?reps = "fst (mapping_phase cs ids r)"
  have "set all_classnames \<union> set all_ids = (\<Union>p \<in> set fl. set (found_in (files_of w) p))"
    using scan_phase_found [OF assms(1)] by simp
  then have "set (map fst ?reps) = (\<Union>p \<in> set fl. set (found_in (files_of w) p))"
    using assms(2,3) by (simp only: mapping_phase_keys)
  moreover have "card (set (map fst ?reps)) = length (map fst ?reps)"
    using mapping_phase_distinct by (rule distinct_card)
  ultimately have "length ?reps = card (\<Union>p \<in> set fl. set (found_in (files_of w) p))" by simp
  then show ?thesis using mapping_phase_tokens by blast
qed

lemma example_html_found: "find_classnames_ids example_html = ([''hero''], [''hero''])"
  by code_simp

lemma example_css_found: "find_classnames_ids_css example_css = ([''hero''], [''nav''])"
  by code_simp

lemma example_scan:
  "scan_phase files ([], [], example_world) =
     Returned ([''hero''], [''hero'', ''nav''],
       example_world\<lparr>log := [Scanning ''index.html'', Scanning ''script.js'',
         FileNotFound ''script.js'', Scanning ''style.css'']\<rparr>)"
  by (simp add: files_def example_world_def example_fs_def read_file_def logging_def endswith_def
        example_html_found example_css_found update_def set_of_def)

theorem replacement_map_size_and_tokens_witness:
  "length (fst (mapping_phase [''hero''] [''nav'', ''hero''] (\<lambda>i. 7 * i))) = 2 \<and>
   list_all (\<lambda>kv. is_token (snd kv)) (fst (mapping_phase [''hero''] [''nav'', ''hero''] (\<lambda>i. 7 * i)))"
proof -
  have "(\<Union>p \<in> set files. set (found_in (files_of example_world) p)) = {''hero'', ''nav''}"
    by (auto simp: files_def example_world_def example_fs_def found_in_def read_file_def
          endswith_def example_html_found example_css_found)
  then have "card (\<Union>p \<in> set files. set (found_in (files_of example_world) p)) = 2" by simp
  then show ?thesis
    using replacement_map_size_and_tokens [OF example_scan, of "[''hero'']" "[''nav'', ''hero'']" "\<lambda>i. 7 * i"]
    by (simp add: insert_commute)
qed




section \<open>The driver and its failures\<close>


lemma scan_phase_returns:
  "\<forall>p \<in> set fl. \<not> read_uncaught (files_of w) p \<Longrightarrow>
   \<exists>a' b' w'. scan_phase fl (a, b, w) = Returned (a', b', w') \<and> files_of w' = files_of w \<and>
      log w' = log w @ concat (map (scan_msgs (files_of w)) fl)"
proof (induction fl arbitrary: a b w)
  case Nil
  show ?case by simp
next
  case (Cons p fl)
  have rest: "\<forall>q \<in> set fl. \<not> read_uncaught (files_of w) q" using Cons.prems by simp
  have here: "\<not> read_uncaught (files_of w) p" using Cons.prems by simp
  show ?case
  proof (cases "rd (files_of w p)")
    case (Inr content)
    obtain cs ids where sc: "(if endswith p ''.css'' then find_classnames_ids_css content
        else find_classnames_ids content) = (cs, ids)" by fastforce
    obtain a' b' w' where ih: "scan_phase fl (update a cs, update b ids, logging (Scanning p) w) = Returned (a', b', w')"
      "files_of w' = files_of w" "log w' = log w @ [Scanning p] @ concat (map (scan_msgs (files_of w)) fl)"
      using Cons.IH [of "logging (Scanning p) w" "update a cs" "update b ids"] rest by auto
    have "scan_phase (p # fl) (a, b, w) = Returned (a', b', w')"
      using Inr sc ih(1) by (simp add: read_file_def Let_def)
    moreover have "scan_msgs (files_of w) p = [Scanning p]"
      using Inr by (simp add: scan_msgs_def read_error_def)
    ultimately show ?thesis using ih by simp
  next
    case (Inl e)
    then have c: "caught e" using here by (simp add: read_uncaught_def read_error_def)
    let ?m = "failure_msg e p"
    obtain a' b' w' where ih: "scan_phase fl (a, b, logging (hd ?m) (logging (Scanning p) w)) = Returned (a', b', w')"
      "files_of w' = files_of w" "log w' = log w @ [Scanning p, hd ?m] @ concat (map (scan_msgs (files_of w)) fl)"
      using Cons.IH [of "logging (hd ?m) (logging (Scanning p) w)" a b] rest by auto
    have "scan_phase (p # fl) (a, b, w) = Returned (a', b', w')"
      using Inl c ih(1) by (auto simp: read_file_def Let_def caught_def failure_msg_def)
    moreover have "scan_msgs (files_of w) p = [Scanning p, hd ?m]"
      using Inl c by (auto simp: scan_msgs_def read_error_def caught_def failure_msg_def)
    ultimately show ?thesis using ih by simp
  qed
qed


lemma scan_phase_raises:
  "\<exists>p \<in> set fl. read_uncaught (files_of w) p \<Longrightarrow>
   \<exists>e w'. scan_phase fl (a, b, w) = Raised e w' \<and> \<not> caught e \<and>
      (\<exists>p \<in> set fl. rd (files_of w p) = Inl e) \<and>
      (\<exists>ms. log w' = log w @ ms \<and> Completed \<notin> set ms)"
proof (induction fl arbitrary: a b w)
  case Nil
  then show ?case by simp
next
  case (Cons p fl)
  show ?case
  proof (cases "read_uncaught (files_of w) p")
    case True
    then obtain e where e: "rd (files_of w p) = Inl e" "\<not> caught e"
      by (auto simp: read_uncaught_def read_error_def split: sum.splits)
    then have "scan_phase (p # fl) (a, b, w) = Raised e (logging (Scanning p) w)"
      by (cases e) (auto simp: read_file_def Let_def caught_def)
    then show ?thesis using e by auto
  next
    case False
    then have rest: "\<exists>q \<in> set fl. read_uncaught (files_of w) q" using Cons.prems by auto
    show ?thesis
    proof (cases "rd (files_of w p)")
      case (Inr content)
      obtain cs ids where sc: "(if endswith p ''.css'' then find_classnames_ids_css content
          else find_classnames_ids content) = (cs, ids)" by fastforce
      obtain e w' ms where ih: "scan_phase fl (update a cs, update b ids, logging (Scanning p) w) = Raised e w'"
        "\<not> caught e" "\<exists>q \<in> set fl. rd (files_of w q) = Inl e"
        "log w' = log w @ [Scanning p] @ ms" "Completed \<notin> set ms"
        using Cons.IH [of "logging (Scanning p) w" "update a cs" "update b ids"] rest by auto
      have "scan_phase (p # fl) (a, b, w) = Raised e w'"
        using Inr sc ih(1) by (simp add: read_file_def Let_def)
      moreover have "Completed \<notin> set ([Scanning p] @ ms)" using ih(5) by simp
      ultimately show ?thesis using ih(2,3,4) by (metis list.set_intros(2))
    next
      case (Inl e0)
      then have c: "caught e0" using False by (simp add: read_uncaught_def read_error_def)
      let ?m = "failure_msg e0 p"
      have m: "?m = [FileNotFound p] \<or> ?m = [PermissionDenied p]"
        using c by (auto simp: caught_def failure_msg_def)
      obtain e w' ms where ih: "scan_phase fl (a, b, logging (hd ?m) (logging (Scanning p) w)) = Raised e w'"
        "\<not> caught e" "\<exists>q \<in> set fl. rd (files_of w q) = Inl e"
        "log w' = log w @ [Scanning p, hd ?m] @ ms" "Completed \<notin> set ms"
        using Cons.IH [of "logging (hd ?m) (logging (Scanning p) w)" a b] rest by auto
      have "scan_phase (p # fl) (a, b, w) = Raised e w'"
        using Inl c ih(1) by (auto simp: read_file_def Let_def caught_def failure_msg_def)
      moreover have "Completed \<notin> set ([Scanning p, hd ?m] @ ms)" using ih(5) m by auto
      ultimately show ?thesis using ih(2,3,4) by (metis list.set_intros(2))
    qed
  qed
qed


lemma same_status_refl: "same_status f f"
  by (simp add: same_status_def)

lemma same_status_trans: "same_status f2 f1 \<Longrightarrow> same_status f1 f \<Longrightarrow> same_status f2 f"
  by (simp add: same_status_def)

lemma same_status_msgs: "same_status f' f \<Longrightarrow> rewrite_msgs f' p = rewrite_msgs f p"
  by (simp add: same_status_def rewrite_msgs_def split: option.splits)

lemma same_status_uncaught: "same_status f' f \<Longrightarrow> uncaught_at f' p = uncaught_at f p"
  by (simp add: same_status_def uncaught_at_def split: option.splits)

lemma same_status_write:
  "rd (f p) = Inr c \<Longrightarrow> same_status (f(p := (f p)\<lparr>rd := Inr c'\<rparr>)) f"
  by (simp add: same_status_def read_error_def)

lemma rewrite_phase_returns:
  "\<forall>p \<in> set fl. \<not> uncaught_at (files_of w) p \<Longrightarrow>
   \<exists>w'. rewrite_phase reps fl w = Returned w' \<and>
      log w' = log w @ concat (map (rewrite_msgs (files_of w)) fl) \<and>
      same_status (files_of w') (files_of w) \<and>
      (distinct fl \<longrightarrow>
         (\<forall>q. files_of w' q = (if q \<in> set fl then rewrite_file reps (files_of w) q else files_of w q)))"
proof (induction fl arbitrary: w)
  case Nil
  show ?case by (simp add: same_status_refl)
next
  case (Cons p fl)
  let ?f = "files_of w"
  have rest: "\<forall>q \<in> set fl. \<not> uncaught_at ?f q" using Cons.prems by simp
  have here: "\<not> uncaught_at ?f p" using Cons.prems by simp
  show ?case
  proof (cases "rd (?f p)")
    case (Inl e)
    then have c: "caught e" using here by (simp add: uncaught_at_def read_error_def)
    let ?m = "failure_msg e p"
    let ?w1 = "logging (hd ?m) (logging (Processing p) w)"
    have m: "rewrite_msgs ?f p = [Processing p, hd ?m]"
      using Inl c by (auto simp: rewrite_msgs_def read_error_def caught_def failure_msg_def)
    have rf: "rewrite_file reps ?f p = ?f p" using Inl by (simp add: rewrite_file_def)
    obtain w' where ih: "rewrite_phase reps fl ?w1 = Returned w'"
      "log w' = log ?w1 @ concat (map (rewrite_msgs ?f) fl)"
      "same_status (files_of w') ?f"
      "distinct fl \<longrightarrow> (\<forall>q. files_of w' q = (if q \<in> set fl then rewrite_file reps ?f q else ?f q))"
      using Cons.IH [of ?w1] rest by auto
    have "rewrite_phase reps (p # fl) w = Returned w'"
      using Inl c ih(1) by (auto simp: read_file_def Let_def caught_def failure_msg_def)
    then show ?thesis using ih(2,3,4) m rf by auto
  next
    case (Inr content)
    show ?thesis
    proof (cases "wr (?f p)")
      case (Some e)
      then have c: "caught e" using here Inr by (simp add: uncaught_at_def read_error_def)
      let ?m = "failure_msg e p"
      let ?w1 = "logging (hd ?m) (logging (Processing p) w)"
      have m: "rewrite_msgs ?f p = [Processing p, hd ?m]"
        using Inr Some c by (auto simp: rewrite_msgs_def read_error_def caught_def failure_msg_def)
      have rf: "rewrite_file reps ?f p = ?f p" using Inr Some by (simp add: rewrite_file_def)
      obtain w' where ih: "rewrite_phase reps fl ?w1 = Returned w'"
        "log w' = log ?w1 @ concat (map (rewrite_msgs ?f) fl)"
        "same_status (files_of w') ?f"
        "distinct fl \<longrightarrow> (\<forall>q. files_of w' q = (if q \<in> set fl then rewrite_file reps ?f q else ?f q))"
        using Cons.IH [of ?w1] rest by auto
      have "rewrite_phase reps (p # fl) w = Returned w'"
        using Inr Some c ih(1)
        by (auto simp: read_file_def write_file_def Let_def caught_def failure_msg_def)
      then show ?thesis using ih(2,3,4) m rf by auto
    next
      case None
      let ?c = "rewritten reps p content"
      let ?f1 = "?f(p := (?f p)\<lparr>rd := Inr ?c\<rparr>)"
      let ?w1 = "logging (Processed p) ((logging (Processing p) w)\<lparr>files_of := ?f1\<rparr>)"
      have st: "same_status ?f1 ?f" using Inr by (rule same_status_write)
      have f1: "files_of ?w1 = ?f1" by simp
      have l1: "log ?w1 = log w @ [Processing p, Processed p]" by (simp add: logging_def)
      have m: "rewrite_msgs ?f p = [Processing p, Processed p]"
        using Inr None by (simp add: rewrite_msgs_def read_error_def)
      have rf: "rewrite_file reps ?f p = ?f1 p" using Inr None by (simp add: rewrite_file_def)
      have rest1: "\<forall>q \<in> set fl. \<not> uncaught_at (files_of ?w1) q"
        using rest st by (simp only: f1 same_status_uncaught) 
      obtain w' where ih: "rewrite_phase reps fl ?w1 = Returned w'"
        "log w' = log ?w1 @ concat (map (rewrite_msgs ?f1) fl)"
        "same_status (files_of w') ?f1"
        "distinct fl \<longrightarrow> (\<forall>q. files_of w' q = (if q \<in> set fl then rewrite_file reps ?f1 q else ?f1 q))"
        using Cons.IH [of ?w1, OF rest1] by (auto simp only: f1)
      have run: "rewrite_phase reps (p # fl) w = Returned w'"
        using Inr None ih(1)
        by (simp add: read_file_def write_file_def Let_def rewritten_def)
      have msgs: "map (rewrite_msgs ?f1) fl = map (rewrite_msgs ?f) fl"
        using st by (simp add: same_status_msgs)
      have lg: "log w' = log w @ concat (map (rewrite_msgs ?f) (p # fl))"
        using ih(2) l1 m msgs by simp
      have ss: "same_status (files_of w') ?f" using ih(3) st by (rule same_status_trans)
      have ct: "distinct (p # fl) \<longrightarrow>
         (\<forall>q. files_of w' q = (if q \<in> set (p # fl) then rewrite_file reps ?f q else ?f q))"
      proof (intro impI allI)
        fix q
        assume d: "distinct (p # fl)"
        then have pn: "p \<notin> set fl" and dl: "distinct fl" by simp_all
        have eq: "files_of w' q = (if q \<in> set fl then rewrite_file reps ?f1 q else ?f1 q)"
          using ih(4) dl by simp
        show "files_of w' q = (if q \<in> set (p # fl) then rewrite_file reps ?f q else ?f q)"
        proof (cases "q = p")
          case True
          then show ?thesis using eq pn rf by simp
        next
          case False
          then have "rewrite_file reps ?f1 q = rewrite_file reps ?f q" 
            using False by (simp add: rewrite_file_def split: sum.splits option.splits)
          then show ?thesis using eq False by simp
        qed
      qed
      show ?thesis using run lg ss ct by blast
    qed
  qed
qed


lemma rewrite_phase_raises:
  "\<exists>p \<in> set fl. uncaught_at (files_of w) p \<Longrightarrow>
   \<exists>e w'. rewrite_phase reps fl w = Raised e w' \<and> \<not> caught e \<and>
      (\<exists>ms. log w' = log w @ ms \<and> Completed \<notin> set ms)"
proof (induction fl arbitrary: w)
  case Nil
  then show ?case by simp
next
  case (Cons p fl)
  let ?f = "files_of w"
  show ?case
  proof (cases "uncaught_at ?f p")
    case True
    show ?thesis
    proof (cases "rd (?f p)")
      case (Inl e)
      then have "\<not> caught e" using True by (simp add: uncaught_at_def read_error_def)
      then have "rewrite_phase reps (p # fl) w = Raised e (logging (Processing p) w)"
        using Inl by (cases e) (auto simp: read_file_def Let_def caught_def)
      then show ?thesis using \<open>\<not> caught e\<close> by auto
    next
      case (Inr content)
      then obtain e where e: "wr (?f p) = Some e" "\<not> caught e"
        using True by (auto simp: uncaught_at_def read_error_def split: option.splits)
      then have "rewrite_phase reps (p # fl) w = Raised e (logging (Processing p) w)"
        using Inr by (cases e) (auto simp: read_file_def write_file_def Let_def caught_def)
      then show ?thesis using e by auto
    qed
  next
    case False
    then have rest: "\<exists>q \<in> set fl. uncaught_at ?f q" using Cons.prems by auto
    have "\<exists>w1 ms1. rewrite_phase reps (p # fl) w = rewrite_phase reps fl w1 \<and>
            same_status (files_of w1) ?f \<and> log w1 = log w @ ms1 \<and> Completed \<notin> set ms1"
    proof (cases "rd (?f p)")
      case (Inl e)
      then have c: "caught e" using False by (simp add: uncaught_at_def read_error_def)
      let ?w1 = "logging (hd (failure_msg e p)) (logging (Processing p) w)"
      have "rewrite_phase reps (p # fl) w = rewrite_phase reps fl ?w1"
        using Inl c by (auto simp: read_file_def Let_def caught_def failure_msg_def)
      moreover have "same_status (files_of ?w1) ?f" by (simp add: same_status_refl)
      moreover have "log ?w1 = log w @ [Processing p, hd (failure_msg e p)]" by simp
      moreover have "Completed \<notin> set [Processing p, hd (failure_msg e p)]"
        using c by (auto simp: caught_def failure_msg_def)
      ultimately show ?thesis by blast
    next
      case (Inr content)
      show ?thesis
      proof (cases "wr (?f p)")
        case (Some e)
        then have c: "caught e" using False Inr by (simp add: uncaught_at_def read_error_def)
        let ?w1 = "logging (hd (failure_msg e p)) (logging (Processing p) w)"
        have "rewrite_phase reps (p # fl) w = rewrite_phase reps fl ?w1"
          using Inr Some c
          by (auto simp: read_file_def write_file_def Let_def caught_def failure_msg_def)
        moreover have "same_status (files_of ?w1) ?f" by (simp add: same_status_refl)
        moreover have "log ?w1 = log w @ [Processing p, hd (failure_msg e p)]" by simp
        moreover have "Completed \<notin> set [Processing p, hd (failure_msg e p)]"
          using c by (auto simp: caught_def failure_msg_def)
        ultimately show ?thesis by blast
      next
        case None
        let ?c = "rewritten reps p content"
        let ?f1 = "?f(p := (?f p)\<lparr>rd := Inr ?c\<rparr>)"
        let ?w1 = "logging (Processed p) ((logging (Processing p) w)\<lparr>files_of := ?f1\<rparr>)"
        have "rewrite_phase reps (p # fl) w = rewrite_phase reps fl ?w1"
          using Inr None by (simp add: read_file_def write_file_def Let_def rewritten_def)
        moreover have "same_status (files_of ?w1) ?f"
          using same_status_write [of "files_of w" p content ?c] Inr by simp
        moreover have "log ?w1 = log w @ [Processing p, Processed p]" by (simp add: logging_def)
        moreover have "Completed \<notin> set [Processing p, Processed p]" by simp
        ultimately show ?thesis by blast
      qed
    qed
    then obtain w1 ms1 where w1: "rewrite_phase reps (p # fl) w = rewrite_phase reps fl w1"
      "same_status (files_of w1) ?f" "log w1 = log w @ ms1" "Completed \<notin> set ms1" by blast
    have "\<exists>q \<in> set fl. uncaught_at (files_of w1) q"
      using rest w1(2) by (simp add: same_status_uncaught)
    then obtain e w' ms where ih: "rewrite_phase reps fl w1 = Raised e w'" "\<not> caught e"
      "log w' = log w1 @ ms" "Completed \<notin> set ms"
      using Cons.IH [of w1] by blast
    have "log w' = log w @ (ms1 @ ms)" "Completed \<notin> set (ms1 @ ms)"
      using ih(3,4) w1(3,4) by simp_all
    then show ?thesis using ih(1,2) w1(1) by metis
  qed
qed

lemma read_uncaught_imp: "read_uncaught f p \<Longrightarrow> uncaught_at f p"
  by (simp add: read_uncaught_def uncaught_at_def split: option.splits)

text \<open>
  Claim C5. When no file raises anything but the two caught exceptions, \<open>process_files\<close>
  returns: the log holds the lines of every file in both phases, with an error line for each
  failing file, and ends with the completion line; every file that can be read and written
  is rewritten and the others are unchanged. When some file raises another exception, that
  exception leaves \<open>process_files\<close> and no completion line is logged.
\<close>

theorem process_files_skips_caught_failures:
  "(\<not> list_ex (uncaught_at (files_of w)) fl \<longrightarrow>
      (\<exists>w'. process_files r fl w = Returned w' \<and>
         (\<exists>reps. log w' = log w @ concat (map (scan_msgs (files_of w)) fl) @ [Dictionary reps] @
                     concat (map (rewrite_msgs (files_of w)) fl) @ [Completed] \<and>
            (distinct fl \<longrightarrow>
               (\<forall>q. files_of w' q =
                  (if q \<in> set fl then rewrite_file reps (files_of w) q else files_of w q)))))) \<and>
   (list_ex (uncaught_at (files_of w)) fl \<longrightarrow>
      (\<exists>e w'. process_files r fl w = Raised e w' \<and> \<not> caught e \<and>
         (\<exists>ms. log w' = log w @ ms \<and> Completed \<notin> set ms)))"
proof (intro conjI impI)
  assume "\<not> list_ex (uncaught_at (files_of w)) fl"
  then have ok: "\<forall>p \<in> set fl. \<not> uncaught_at (files_of w) p" by (simp add: list_ex_iff)
  then have "\<forall>p \<in> set fl. \<not> read_uncaught (files_of w) p" using read_uncaught_imp by blast
  then obtain a b w1 where s: "scan_phase fl ([], [], w) = Returned (a, b, w1)"
    "files_of w1 = files_of w" "log w1 = log w @ concat (map (scan_msgs (files_of w)) fl)"
    using scan_phase_returns [of fl w "[]" "[]"] by blast
  obtain reps r' where mp: "mapping_phase a b r = (reps, r')" by (cases "mapping_phase a b r")
  let ?w2 = "logging (Dictionary reps) w1"
  have "\<forall>p \<in> set fl. \<not> uncaught_at (files_of ?w2) p" using ok s(2) by simp
  then obtain w3 where rw: "rewrite_phase reps fl ?w2 = Returned w3"
    "log w3 = log ?w2 @ concat (map (rewrite_msgs (files_of ?w2)) fl)"
    "distinct fl \<longrightarrow>
       (\<forall>q. files_of w3 q = (if q \<in> set fl then rewrite_file reps (files_of ?w2) q else files_of ?w2 q))"
    using rewrite_phase_returns [of fl ?w2 reps] by blast
  have "process_files r fl w = Returned (logging Completed w3)"
    using s(1) mp rw(1) by (simp add: process_files_def)
  moreover have "log (logging Completed w3) = log w @ concat (map (scan_msgs (files_of w)) fl) @
      [Dictionary reps] @ concat (map (rewrite_msgs (files_of w)) fl) @ [Completed]"
    using rw(2) s(2,3) by simp
  moreover have "distinct fl \<longrightarrow> (\<forall>q. files_of (logging Completed w3) q =
      (if q \<in> set fl then rewrite_file reps (files_of w) q else files_of w q))"
    using rw(3) s(2) by simp
  ultimately show "\<exists>w'. process_files r fl w = Returned w' \<and>
         (\<exists>reps. log w' = log w @ concat (map (scan_msgs (files_of w)) fl) @ [Dictionary reps] @
                     concat (map (rewrite_msgs (files_of w)) fl) @ [Completed] \<and>
            (distinct fl \<longrightarrow>
               (\<forall>q. files_of w' q =
                  (if q \<in> set fl then rewrite_file reps (files_of w) q else files_of w q))))"
    by blast
next
  assume "list_ex (uncaught_at (files_of w)) fl"
  then have bad: "\<exists>p \<in> set fl. uncaught_at (files_of w) p" by (simp add: list_ex_iff)
  show "\<exists>e w'. process_files r fl w = Raised e w' \<and> \<not> caught e \<and>
         (\<exists>ms. log w' = log w @ ms \<and> Completed \<notin> set ms)"
  proof (cases "\<exists>p \<in> set fl. read_uncaught (files_of w) p")
    case True
    then obtain e w' ms where "scan_phase fl ([], [], w) = Raised e w'" "\<not> caught e"
      "log w' = log w @ ms" "Completed \<notin> set ms"
      using scan_phase_raises [of fl w "[]" "[]"] by blast
    then show ?thesis by (auto simp: process_files_def)
  next
    case False
    then obtain a b w1 where s: "scan_phase fl ([], [], w) = Returned (a, b, w1)"
      "files_of w1 = files_of w" "log w1 = log w @ concat (map (scan_msgs (files_of w)) fl)"
      using scan_phase_returns [of fl w "[]" "[]"] by blast
    obtain reps r' where mp: "mapping_phase a b r = (reps, r')" by (cases "mapping_phase a b r")
    let ?w2 = "logging (Dictionary reps) w1"
    have "\<exists>p \<in> set fl. uncaught_at (files_of ?w2) p" using bad s(2) by simp
    then obtain e w' ms where rw: "rewrite_phase reps fl ?w2 = Raised e w'" "\<not> caught e"
      "log w' = log ?w2 @ ms" "Completed \<notin> set ms"
      using rewrite_phase_raises [of fl ?w2 reps] by blast
    have nc: "Completed \<notin> set (concat (map (scan_msgs (files_of w)) fl))"
      by (auto simp: scan_msgs_def failure_msg_def split: option.splits exn.splits)
    have "process_files r fl w = Raised e w'"
      using s(1) mp rw(1) by (simp add: process_files_def)
    moreover have "log w' = log w @ (concat (map (scan_msgs (files_of w)) fl) @ [Dictionary reps] @ ms)"
      using rw(3) s(3) by simp
    moreover have "Completed \<notin> set (concat (map (scan_msgs (files_of w)) fl) @ [Dictionary reps] @ ms)"
      using nc rw(4) by simp
    ultimately show ?thesis using rw(2) by blast
  qed
qed

theorem process_files_skips_caught_failures_witness:
  "\<not> list_ex (uncaught_at (files_of example_world)) files \<and>
   (\<exists>w' reps. process_files (\<lambda>i. 7 * i) files example_world = Returned w' \<and>
      log w' = [Scanning ''index.html'', Scanning ''script.js'', FileNotFound ''script.js'',
                Scanning ''style.css'', Dictionary reps,
                Processing ''index.html'', Processed ''index.html'',
                Processing ''script.js'', FileNotFound ''script.js'',
                Processing ''style.css'', Processed ''style.css'', Completed]) \<and>
   list_ex (uncaught_at (files_of broken_world)) files \<and>
   (\<exists>e w'. process_files (\<lambda>i. 7 * i) files broken_world = Raised e w' \<and> \<not> caught e)"
proof -
  have ok: "\<not> list_ex (uncaught_at (files_of example_world)) files"
    by (simp add: files_def example_world_def example_fs_def uncaught_at_def read_error_def caught_def)
  have bad: "list_ex (uncaught_at (files_of broken_world)) files"
    by (simp add: files_def broken_world_def example_fs_def uncaught_at_def read_error_def caught_def)
  have sm: "concat (map (scan_msgs (files_of example_world)) files) =
      [Scanning ''index.html'', Scanning ''script.js'', FileNotFound ''script.js'', Scanning ''style.css'']"
    by (simp add: files_def example_world_def example_fs_def scan_msgs_def read_error_def failure_msg_def)
  have rm: "concat (map (rewrite_msgs (files_of example_world)) files) =
      [Processing ''index.html'', Processed ''index.html'',
                Processing ''script.js'', FileNotFound ''script.js'',
                Processing ''style.css'', Processed ''style.css'']"
    by (simp add: files_def example_world_def example_fs_def rewrite_msgs_def read_error_def failure_msg_def)
  have l0: "log example_world = []" by (simp add: example_world_def)
  show ?thesis
    using process_files_skips_caught_failures [of example_world files "\<lambda>i. 7 * i"]
      process_files_skips_caught_failures [of broken_world files "\<lambda>i. 7 * i"] ok bad
    by (simp only: sm rm l0) auto
qed


section \<open>The selector patterns\<close>

text \<open>
  Claim C3. The dot of the two \<^verbatim>\<open>querySelector\<close> patterns is not escaped and matches any
  character: an ID selector is scanned as a class name and rewritten into a class selector.
\<close>

theorem querySelector_takes_id_selector_as_class:
  "find_classnames_ids (''document.querySelector('' @ [dquote] @ ''#nav'' @ [dquote] @ '')'') = ([''nav''], []) \<and>
   replace_classnames_ids (''document.querySelector('' @ [dquote] @ ''#nav'' @ [dquote] @ '')'') [(''nav'', ''Ab12Cd34'')] =
     ''document.querySelector('' @ [dquote] @ ''.Ab12Cd34'' @ [dquote] @ '')''"
  by code_simp

section \<open>The stylesheet scanner\<close>

lemma ident_not_trail: "is_ident c \<Longrightarrow> \<not> is_trail c"
  by (auto simp: is_ident_def is_trail_def is_alnum_def is_lower_def is_upper_def is_digit_def is_space_def)

lemma lead_not_ident: "d = CHR ''.'' \<or> d = CHR ''#'' \<Longrightarrow> \<not> is_ident d"
  by (auto simp: is_ident_def is_alnum_def is_lower_def is_upper_def is_digit_def)

lemma lead_not_trail: "d = CHR ''.'' \<or> d = CHR ''#'' \<Longrightarrow> \<not> is_trail d"
  by (auto simp: is_trail_def is_space_def)








section \<open>The stylesheet rewriter\<close>

lemma sub_from_Nil [simp]: "sub_from pat repl prev [] = []"
  by (simp add: sub_from_def)

lemma sub_from_Chr:
  "match_items pat prev (c # cs) = None \<Longrightarrow>
   sub_from pat repl prev (c # cs) = c # sub_from pat repl (Some c) cs"
  by (simp add: sub_from_def)

lemma sub_from_Match:
  "match_items pat prev (w @ rest) = Some (w, gs) \<Longrightarrow> w \<noteq> [] \<Longrightarrow>
   sub_from pat repl prev (w @ rest) = repl gs @ sub_from pat repl (Some (last w)) rest"
  by (simp add: sub_from_def scan_Match_append)

lemma sub_from_skip:
  "(\<And>i pv. i < length u \<Longrightarrow> match_items pat pv (drop i u @ y) = None) \<Longrightarrow>
   sub_from pat repl prev (u @ y) = u @ sub_from pat repl (prev_after prev u) y"
proof -
  assume "\<And>i pv. i < length u \<Longrightarrow> match_items pat pv (drop i u @ y) = None"
  then have "scan pat prev (u @ y) = map Chr u @ scan pat (prev_after prev u) y" by (rule scan_skip)
  moreover have "concat (map (seg_out repl) (map Chr u)) = u" by (induction u) simp_all
  ultimately show ?thesis by (simp add: sub_from_def)
qed

lemma re_sub_sub_from: "re_sub pat repl s = sub_from pat repl None s"
  by (simp add: re_sub_def sub_from_def)

lemma takeWhile_run: "list_all P u \<Longrightarrow> \<not> P x \<Longrightarrow> takeWhile P (u @ x # y) = u"
  by (simp add: list_all_iff takeWhile_append2)

lemma dropWhile_run: "list_all P u \<Longrightarrow> \<not> P x \<Longrightarrow> dropWhile P (u @ x # y) = x # y"
  by (simp add: list_all_iff dropWhile_append2)

lemma css_pat_match_run:
  assumes "list_all is_ident k"
  shows "match_items (css_pat d k) pv (c # cs) =
     (if c = d \<and> takeWhile is_ident cs = k \<and>
         (case dropWhile is_ident cs of [] \<Rightarrow> False | t # rest \<Rightarrow> is_trail t)
      then Some (d # k @ [hd (dropWhile is_ident cs)], [k, [hd (dropWhile is_ident cs)]])
      else None)"
proof (cases "\<exists>t rest. c # cs = d # k @ t # rest \<and> is_trail t")
  case True
  then obtain t rest where s: "c = d" "cs = k @ t # rest" "is_trail t" by auto
  have nt: "\<not> is_ident t" using s(3) ident_not_trail by blast
  have "takeWhile is_ident cs = k" "dropWhile is_ident cs = t # rest"
    using s(2) assms nt by (simp_all add: takeWhile_run dropWhile_run)
  then show ?thesis using s by (simp add: css_pat_match)
next
  case False
  have "\<not> (c = d \<and> takeWhile is_ident cs = k \<and>
         (case dropWhile is_ident cs of [] \<Rightarrow> False | t # rest \<Rightarrow> is_trail t))"
  proof
    assume a: "c = d \<and> takeWhile is_ident cs = k \<and>
         (case dropWhile is_ident cs of [] \<Rightarrow> False | t # rest \<Rightarrow> is_trail t)"
    then obtain t rest where "dropWhile is_ident cs = t # rest" "is_trail t"
      by (auto split: list.splits)
    then have "cs = k @ t # rest" using a by (metis takeWhile_dropWhile_id)
    then show False using False a \<open>is_trail t\<close> by simp
  qed
  then show ?thesis using False by (simp only: css_pat_match if_False)
qed

lemma sp_head: "\<exists>y. css_single_pass m (c # cs) = c # y"
  by (auto split: list.splits option.splits)

lemma sp_plain: "c \<noteq> CHR ''.'' \<Longrightarrow> c \<noteq> CHR ''#'' \<Longrightarrow>
    css_single_pass m (c # cs) = c # css_single_pass m cs"
  by simp

lemma sp_ident_run: "list_all is_ident u \<Longrightarrow> css_single_pass m (u @ y) = u @ css_single_pass m y"
proof (induction u)
  case Nil
  show ?case by simp
next
  case (Cons c u)
  then have "c \<noteq> CHR ''.''" "c \<noteq> CHR ''#''" using lead_not_ident by auto
  then show ?case using Cons by (simp add: sp_plain del: css_single_pass.simps)
qed

lemma sp_trail: "is_trail t \<Longrightarrow> css_single_pass m (t # y) = t # css_single_pass m y"
proof -
  assume "is_trail t"
  then have "t \<noteq> CHR ''.''" "t \<noteq> CHR ''#''" using lead_not_trail by auto
  then show ?thesis by (rule sp_plain)
qed

lemma sp_takeWhile: "takeWhile is_ident (css_single_pass m cs) = takeWhile is_ident cs"
proof -
  let ?r = "takeWhile is_ident cs" and ?z = "dropWhile is_ident cs"
  have r: "list_all is_ident ?r" by (auto simp: list_all_iff dest: set_takeWhileD)
  have "css_single_pass m cs = ?r @ css_single_pass m ?z"
    using sp_ident_run [OF r, of m ?z] by simp
  moreover have "takeWhile is_ident (?r @ css_single_pass m ?z) = ?r"
  proof (cases ?z)
    case Nil
    have "css_single_pass m ?z = []" by (simp only: Nil css_single_pass.simps)
    then show ?thesis by simp
  next
    case (Cons z0 z')
    then have "\<not> is_ident z0" by (metis hd_dropWhile list.distinct(1) list.sel(1))
    moreover obtain y where "css_single_pass m ?z = z0 # y" using Cons sp_head by metis
    ultimately show ?thesis using r by (simp add: takeWhile_run)
  qed
  ultimately show ?thesis by simp
qed

lemma sp_dropWhile:
  "(case dropWhile is_ident (css_single_pass m cs) of [] \<Rightarrow> False | t # rest \<Rightarrow> is_trail t) =
   (case dropWhile is_ident cs of [] \<Rightarrow> False | t # rest \<Rightarrow> is_trail t)"
proof -
  let ?r = "takeWhile is_ident cs" and ?z = "dropWhile is_ident cs"
  have r: "list_all is_ident ?r" by (auto simp: list_all_iff dest: set_takeWhileD)
  have e: "css_single_pass m cs = ?r @ css_single_pass m ?z"
    using sp_ident_run [OF r, of m ?z] by simp
  show ?thesis
  proof (cases ?z)
    case Nil
    have "css_single_pass m ?z = []" by (simp only: Nil css_single_pass.simps)
    then have "css_single_pass m cs = ?r" using e by simp
    then have "dropWhile is_ident (css_single_pass m cs) = []"
      by (auto dest: set_takeWhileD)
    then show ?thesis by (simp only: Nil list.case)
  next
    case (Cons z0 z')
    then have nz: "\<not> is_ident z0" by (metis hd_dropWhile list.distinct(1) list.sel(1))
    obtain y where y: "css_single_pass m ?z = z0 # y" using Cons sp_head by metis
    have "dropWhile is_ident (?r @ z0 # y) = z0 # y" using r nz by (rule dropWhile_run)
    then have "dropWhile is_ident (css_single_pass m cs) = z0 # y" using e y by simp
    then show ?thesis using Cons by simp
  qed
qed

lemma css_match_sp:
  assumes "list_all is_ident k"
  shows "(match_items (css_pat d k) pv (c # css_single_pass m cs) = None) =
         (match_items (css_pat d k) pv (c # cs) = None)"
  unfolding css_pat_match_run [OF assms] sp_takeWhile sp_dropWhile by simp


lemma css_sub_step:
  assumes d: "d = CHR ''.'' \<or> d = CHR ''#''"
    and k: "list_all is_ident k"
    and fresh: "m d k = None"
    and toks: "\<And>c r tok. m c r = Some tok \<Longrightarrow> list_all is_ident tok \<and> tok \<noteq> k"
  shows "sub_from (css_pat d k) (css_repl d new) pv (css_single_pass m s) =
         css_single_pass (m(d := (m d)(k \<mapsto> new))) s"
proof (induction "length s" arbitrary: s pv rule: less_induct)
  case less
  let ?m' = "m(d := (m d)(k \<mapsto> new))"
  let ?sub = "sub_from (css_pat d k) (css_repl d new)"
  show ?case
  proof (cases s)
    case Nil
    then show ?thesis by simp
  next
    case (Cons c cs)
    let ?r = "takeWhile is_ident cs" and ?z = "dropWhile is_ident cs"
    have r: "list_all is_ident ?r" by (auto simp: list_all_iff dest: set_takeWhileD)
    have ihcs: "\<And>pv. ?sub pv (css_single_pass m cs) = css_single_pass ?m' cs"
      using less [of cs] Cons by simp
    let ?site = "(c = CHR ''.'' \<or> c = CHR ''#'') \<and> (\<exists>t rest. ?z = t # rest \<and> is_trail t)"
    show ?thesis
    proof (cases "?site \<and> m c ?r \<noteq> None")
      case True
      then obtain t rest tok where z: "?z = t # rest" "is_trail t" and mc: "m c ?r = Some tok"
        and lead: "c = CHR ''.'' \<or> c = CHR ''#''" by auto
      have tk: "list_all is_ident tok" "tok \<noteq> k" using toks [OF mc] by simp_all
      have nt: "\<not> is_ident t" using z(2) ident_not_trail by blast
      have ne: "(c, ?r) \<noteq> (d, k)" using mc fresh by auto
      have m': "?m' c ?r = Some tok" using mc ne by auto
      have lrest: "length rest < length s"
        using z(1) Cons length_dropWhile_le [of is_ident cs] by simp
      have in_eq: "css_single_pass m s = c # (tok @ [t]) @ css_single_pass m rest"
        using Cons lead z mc by simp
      have out_eq: "css_single_pass ?m' s = c # (tok @ [t]) @ css_single_pass ?m' rest"
        using Cons lead z m' by simp
      have no0: "match_items (css_pat d k) pv (c # (tok @ [t]) @ css_single_pass m rest) = None"
        using tk nt by (simp add: css_pat_match_run [OF k] takeWhile_run)
      have noi: "\<And>i pv'. i < length (tok @ [t]) \<Longrightarrow>
          match_items (css_pat d k) pv' (drop i (tok @ [t]) @ css_single_pass m rest) = None"
      proof -
        fix i pv' assume i: "i < length (tok @ [t])"
        then obtain x xs where dx: "drop i (tok @ [t]) = x # xs" by (cases "drop i (tok @ [t])") auto
        then have "x \<in> set (tok @ [t])" by (metis in_set_dropD list.set_intros(1))
        then have "is_ident x \<or> is_trail x" using tk(1) z(2) by (auto simp: list_all_iff)
        then have "x \<noteq> d" using d lead_not_ident lead_not_trail by blast
        then show "match_items (css_pat d k) pv' (drop i (tok @ [t]) @ css_single_pass m rest) = None"
          using dx by (simp add: css_pat_match_run [OF k])
      qed
      have "?sub pv (css_single_pass m s) = c # ?sub (Some c) ((tok @ [t]) @ css_single_pass m rest)"
        using no0 in_eq by (simp add: sub_from_Chr)
      also have "\<dots> = c # (tok @ [t]) @ ?sub (prev_after (Some c) (tok @ [t])) (css_single_pass m rest)"
        using sub_from_skip [of "tok @ [t]" "css_pat d k" "css_single_pass m rest", OF noi] by simp
      also have "\<dots> = c # (tok @ [t]) @ css_single_pass ?m' rest"
        using less [OF lrest] by simp
      finally show ?thesis using out_eq by simp
    next
      case False
      then have in_eq: "css_single_pass m s = c # css_single_pass m cs"
        using Cons by (auto split: list.splits option.splits)
      show ?thesis
      proof (cases "c = d \<and> ?r = k \<and> (\<exists>t rest. ?z = t # rest \<and> is_trail t)")
        case True
        then obtain t rest where z: "?z = t # rest" "is_trail t" and cd: "c = d" and rk: "?r = k" by auto
        have cs: "cs = k @ t # rest" using z(1) rk by (metis takeWhile_dropWhile_id)
        have lrest: "length rest < length s" using cs Cons by simp
        have p: "css_single_pass m cs = k @ t # css_single_pass m rest"
          using cs k z(2) by (simp add: sp_ident_run sp_trail del: css_single_pass.simps)
        have hit: "match_items (css_pat d k) pv ((d # k @ [t]) @ css_single_pass m rest) =
            Some (d # k @ [t], [k, [t]])"
          using z(2) by (simp add: css_pat_match)
        have "?sub pv (css_single_pass m s) = ?sub pv ((d # k @ [t]) @ css_single_pass m rest)"
          using in_eq p cd by simp
        also have "\<dots> = css_repl d new [k, [t]] @ ?sub (Some (last (d # k @ [t]))) (css_single_pass m rest)"
          using hit by (rule sub_from_Match) simp
        also have "\<dots> = d # new @ t # css_single_pass ?m' rest"
          using less [OF lrest] by (simp add: css_repl_def group_def)
        finally have lhs: "?sub pv (css_single_pass m s) = d # new @ t # css_single_pass ?m' rest" .
        have "css_single_pass ?m' s = d # new @ t # css_single_pass ?m' rest"
          using Cons cd d z rk by simp
        then show ?thesis using lhs by simp
      next
        case nosite: False
        have "match_items (css_pat d k) pv (c # cs) = None"
          using nosite by (auto simp: css_pat_match_run [OF k] split: list.splits)
        then have "match_items (css_pat d k) pv (c # css_single_pass m cs) = None"
          by (simp only: css_match_sp [OF k])
        then have lhs: "?sub pv (css_single_pass m s) = c # css_single_pass ?m' cs"
          using in_eq ihcs by (simp add: sub_from_Chr)
        have "css_single_pass ?m' s = c # css_single_pass ?m' cs"
        proof (cases ?site)
          case True
          then obtain t rest where z: "?z = t # rest" "is_trail t"
            and lead: "c = CHR ''.'' \<or> c = CHR ''#''" by auto
          have "m c ?r = None" using False True by blast
          moreover have "(c, ?r) \<noteq> (d, k)" using nosite z by auto
          ultimately have "?m' c ?r = None" by auto
          then show ?thesis using Cons lead z by simp
        next
          case False
          then show ?thesis using Cons by (auto split: list.splits)
        qed
        then show ?thesis using lhs by simp
      qed
    qed
  qed
qed

lemma sp_cong:
  "m CHR ''.'' = m' CHR ''.'' \<Longrightarrow> m CHR ''#'' = m' CHR ''#'' \<Longrightarrow>
   css_single_pass m s = css_single_pass m' s"
proof (induction "length s" arbitrary: s rule: less_induct)
  case less
  show ?case
  proof (cases s)
    case Nil
    then show ?thesis by simp
  next
    case (Cons c cs)
    have a: "css_single_pass m cs = css_single_pass m' cs"
      by (rule less.hyps) (simp_all add: Cons less.prems)
    have b: "\<And>t rest. dropWhile is_ident cs = t # rest \<Longrightarrow>
        css_single_pass m rest = css_single_pass m' rest"
    proof -
      fix t rest assume "dropWhile is_ident cs = t # rest"
      then have "length (t # rest) \<le> length cs" by (metis length_dropWhile_le)
      then have "length rest < length s" using Cons by simp
      then show "css_single_pass m rest = css_single_pass m' rest"
        by (rule less.hyps) (simp_all add: less.prems)
    qed
    show ?thesis
    proof (cases "c = CHR ''.'' \<or> c = CHR ''#''")
      case False
      then show ?thesis using Cons a by simp
    next
      case True
      then have mc: "m c = m' c" using less.prems by auto
      show ?thesis
      proof (cases "dropWhile is_ident cs")
        case Nil
        show ?thesis using True a by (simp add: Cons Nil)
      next
        case dc: (Cons t rest)
        have r: "css_single_pass m rest = css_single_pass m' rest" using dc by (rule b)
        show ?thesis using True a r by (simp add: Cons dc mc split: option.splits)
      qed
    qed
  qed
qed

lemma sp_empty: "css_single_pass (\<lambda>c. Map.empty) s = s"
proof (induction s)
  case Nil
  show ?case by simp
next
  case (Cons c cs)
  then show ?case by (simp split: list.splits)
qed


lemma replace_one_css_step:
  assumes k: "list_all is_ident k" and new: "list_all is_ident new" "new \<noteq> k"
    and fresh: "\<And>c. m c k = None"
    and toks: "\<And>c r tok. m c r = Some tok \<Longrightarrow> list_all is_ident tok \<and> tok \<noteq> k"
  shows "replace_one_css k new (css_single_pass m s) = css_single_pass (\<lambda>c. (m c)(k \<mapsto> new)) s"
proof -
  let ?m1 = "m(CHR ''.'' := (m CHR ''.'')(k \<mapsto> new))"
  let ?m2 = "?m1(CHR ''#'' := (?m1 CHR ''#'')(k \<mapsto> new))"
  have 1: "sub_from (css_pat CHR ''.'' k) (css_repl CHR ''.'' new) None (css_single_pass m s) =
      css_single_pass ?m1 s"
  proof (rule css_sub_step)
    show "CHR ''.'' = CHR ''.'' \<or> CHR ''.'' = CHR ''#''" by simp
    show "list_all is_ident k" by (rule k)
    show "m CHR ''.'' k = None" by (rule fresh)
    show "\<And>c r tok. m c r = Some tok \<Longrightarrow> list_all is_ident tok \<and> tok \<noteq> k" by (rule toks)
  qed
  have 2: "sub_from (css_pat CHR ''#'' k) (css_repl CHR ''#'' new) None (css_single_pass ?m1 s) =
      css_single_pass ?m2 s"
  proof (rule css_sub_step)
    show "CHR ''#'' = CHR ''.'' \<or> CHR ''#'' = CHR ''#''" by simp
    show "list_all is_ident k" by (rule k)
    show "?m1 CHR ''#'' k = None" using fresh by simp
    show "\<And>c r tok. ?m1 c r = Some tok \<Longrightarrow> list_all is_ident tok \<and> tok \<noteq> k"
    proof -
      fix c r tok assume a: "?m1 c r = Some tok"
      show "list_all is_ident tok \<and> tok \<noteq> k"
      proof (cases "c = CHR ''.'' \<and> r = k")
        case True
        then have "tok = new" using a by simp
        then show ?thesis using new by simp
      next
        case False
        then have "m c r = Some tok" using a by (auto split: if_splits)
        then show ?thesis by (rule toks)
      qed
    qed
  qed
  have 3: "css_single_pass ?m2 s = css_single_pass (\<lambda>c. (m c)(k \<mapsto> new)) s"
    by (rule sp_cong) simp_all
  have "replace_one_css k new (css_single_pass m s) =
      sub_from (css_pat CHR ''#'' k) (css_repl CHR ''#'' new) None
        (sub_from (css_pat CHR ''.'' k) (css_repl CHR ''.'' new) None (css_single_pass m s))"
    by (simp add: replace_one_css_def re_sub_sub_from)
  also have "\<dots> = css_single_pass ?m2 s" by (simp only: 1 2)
  finally show ?thesis by (simp only: 3)
qed

lemma replace_css_fold:
  assumes "distinct (map fst reps)"
    and "\<And>k new. (k, new) \<in> set reps \<Longrightarrow>
           list_all is_ident k \<and> list_all is_ident new \<and> new \<notin> set (map fst reps)"
    and "\<And>c k. k \<in> set (map fst reps) \<Longrightarrow> m c k = None"
    and "\<And>c r tok. m c r = Some tok \<Longrightarrow> list_all is_ident tok \<and> tok \<notin> set (map fst reps)"
  shows "replace_classnames_ids_css (css_single_pass m s) reps =
         css_single_pass (\<lambda>c. m c ++ map_of reps) s"
  using assms
proof (induction reps arbitrary: m)
  case Nil
  show ?case by simp
next
  case (Cons kv reps)
  obtain k new where kv: "kv = (k, new)" by (cases kv)
  let ?m' = "\<lambda>c. (m c)(k \<mapsto> new)"
  have kn: "list_all is_ident k" "list_all is_ident new" "new \<notin> set (map fst (kv # reps))"
    using Cons.prems(2) [of k new] kv by simp_all
  have knew: "new \<noteq> k" using kn(3) kv by auto
  have kfresh: "k \<notin> set (map fst reps)" using Cons.prems(1) kv by simp
  have step: "replace_one_css k new (css_single_pass m s) = css_single_pass ?m' s"
  proof (rule replace_one_css_step [OF kn(1,2) knew])
    show "\<And>c. m c k = None" using Cons.prems(3) kv by simp
    show "\<And>c r tok. m c r = Some tok \<Longrightarrow> list_all is_ident tok \<and> tok \<noteq> k"
    proof -
      fix c r tok assume "m c r = Some tok"
      then have "list_all is_ident tok \<and> tok \<notin> set (map fst (kv # reps))" by (rule Cons.prems(4))
      then show "list_all is_ident tok \<and> tok \<noteq> k" using kv by auto
    qed
  qed
  have ih: "replace_classnames_ids_css (css_single_pass ?m' s) reps =
      css_single_pass (\<lambda>c. ?m' c ++ map_of reps) s"
  proof (rule Cons.IH)
    show "distinct (map fst reps)" using Cons.prems(1) by simp
    show "\<And>k' new'. (k', new') \<in> set reps \<Longrightarrow>
        list_all is_ident k' \<and> list_all is_ident new' \<and> new' \<notin> set (map fst reps)"
    proof -
      fix k' new' assume "(k', new') \<in> set reps"
      then have "(k', new') \<in> set (kv # reps)" by simp
      then have "list_all is_ident k' \<and> list_all is_ident new' \<and> new' \<notin> set (map fst (kv # reps))"
        by (rule Cons.prems(2))
      then show "list_all is_ident k' \<and> list_all is_ident new' \<and> new' \<notin> set (map fst reps)" by simp
    qed
    show "\<And>c k'. k' \<in> set (map fst reps) \<Longrightarrow> ?m' c k' = None"
    proof -
      fix c k' assume a: "k' \<in> set (map fst reps)"
      then have "k' \<in> set (map fst (kv # reps))" by simp
      then have "m c k' = None" by (rule Cons.prems(3))
      moreover have "k' \<noteq> k" using a kfresh by auto
      ultimately show "?m' c k' = None" by simp
    qed
    show "\<And>c r tok. ?m' c r = Some tok \<Longrightarrow> list_all is_ident tok \<and> tok \<notin> set (map fst reps)"
    proof -
      fix c r tok assume a: "?m' c r = Some tok"
      show "list_all is_ident tok \<and> tok \<notin> set (map fst reps)"
      proof (cases "r = k")
        case True
        then have "tok = new" using a by simp
        then show ?thesis using kn by simp
      next
        case False
        then have "m c r = Some tok" using a by simp
        then have "list_all is_ident tok \<and> tok \<notin> set (map fst (kv # reps))" by (rule Cons.prems(4))
        then show ?thesis by simp
      qed
    qed
  qed
  have "map_of reps k = None" using kfresh by (simp add: map_of_eq_None_iff)
  then have e: "(\<lambda>c. ?m' c ++ map_of reps) = (\<lambda>c. m c ++ map_of ((k, new) # reps))"
    by (auto simp: map_add_def fun_eq_iff split: option.splits)
  have "replace_classnames_ids_css (css_single_pass m s) ((k, new) # reps) =
      replace_classnames_ids_css (replace_one_css k new (css_single_pass m s)) reps" by simp
  also have "\<dots> = css_single_pass (\<lambda>c. ?m' c ++ map_of reps) s" using step ih by simp
  also have "\<dots> = css_single_pass (\<lambda>c. m c ++ map_of ((k, new) # reps)) s" by (simp only: e)
  finally show ?case by (simp only: kv)
qed

lemma css_names_D:
  "css_names reps \<Longrightarrow> (k, new) \<in> set reps \<Longrightarrow>
   list_all is_ident k \<and> list_all is_ident new \<and> new \<notin> set (map fst reps)"
proof -
  assume n: "css_names reps" and i: "(k, new) \<in> set reps"
  from n have "\<forall>kv \<in> set reps. list_all is_ident (fst kv) \<and> list_all is_ident (snd kv) \<and>
      snd kv \<notin> set (map fst reps)" by (simp add: css_names_def list_all_iff)
  then have "list_all is_ident (fst (k, new)) \<and> list_all is_ident (snd (k, new)) \<and>
      snd (k, new) \<notin> set (map fst reps)" using i by blast
  then show ?thesis by simp
qed

lemma css_rewriter_single_pass:
  assumes "css_names reps"
  shows "replace_classnames_ids_css content reps = css_single_pass (\<lambda>d. map_of reps) content"
proof -
  have "replace_classnames_ids_css (css_single_pass (\<lambda>c. Map.empty) content) reps =
      css_single_pass (\<lambda>c. Map.empty ++ map_of reps) content"
  proof (rule replace_css_fold)
    show "distinct (map fst reps)" using assms by (simp add: css_names_def)
    show "\<And>k new. (k, new) \<in> set reps \<Longrightarrow>
        list_all is_ident k \<and> list_all is_ident new \<and> new \<notin> set (map fst reps)"
      using assms by (rule css_names_D)
  qed simp_all
  then show ?thesis by (simp add: sp_empty)
qed

text \<open>
  Claim C2, as amended. For a dictionary with distinct keys, whose keys and tokens consist
  of identifier characters and in which no token is a key, the stylesheet rewriter is the
  single pass: behind a dot or a hash, the run of identifier characters is replaced by its
  token exactly when the run is a key and a trailing character follows, and that character
  is kept; all other text is unchanged.
\<close>

theorem css_rewriter_is_single_pass:
  "css_names reps \<Longrightarrow>
   replace_classnames_ids_css content reps = css_single_pass (\<lambda>d. map_of reps) content"
  by (rule css_rewriter_single_pass)

lemma example_css_names: "css_names [(''hero'', ''Ab12Cd34''), (''nav'', ''Zz99Yy88'')]"
  by (simp add: css_names_def is_ident_def is_alnum_def is_lower_def is_upper_def is_digit_def)

theorem css_rewriter_is_single_pass_witness:
  "css_names [(''hero'', ''Ab12Cd34''), (''nav'', ''Zz99Yy88'')] \<and>
   replace_classnames_ids_css ''.hero { color: red; } #nav, .hero-x{'' [(''hero'', ''Ab12Cd34''), (''nav'', ''Zz99Yy88'')] =
     ''.Ab12Cd34 { color: red; } #Zz99Yy88, .hero-x{''"
proof -
  have "css_single_pass (\<lambda>d. map_of [(''hero'', ''Ab12Cd34''), (''nav'', ''Zz99Yy88'')])
      ''.hero { color: red; } #nav, .hero-x{'' = ''.Ab12Cd34 { color: red; } #Zz99Yy88, .hero-x{''"
    by code_simp
  then show ?thesis
    using css_rewriter_is_single_pass [OF example_css_names, of "''.hero { color: red; } #nav, .hero-x{''"]
      example_css_names by simp
qed

text \<open>
  Claim C2 as stated fails for other dictionaries. The key \<open>a b\<close>, taken from a class
  attribute with two names, stands behind a dot and before a space, and is not replaced,
  because the substitution for the key \<open>a\<close> has already rewritten its first part.
\<close>

theorem css_rewriter_leaves_anchored_identifier:
  "replace_classnames_ids_css ''.a b {'' [(''a'', ''Aaaaaaa1''), (''a b'', ''Bbbbbbb2'')] = ''.Aaaaaaa1 b {''"
  by code_simp

section \<open>The markup and script rewriter\<close>

lemma match_Lit_append:
  "match_items (Lit l # its) pv (l @ rest) =
     (case match_items its (prev_after pv l) rest of None \<Rightarrow> None | Some (ws, gs) \<Rightarrow> Some (l @ ws, gs))"
  by (simp add: match_Lit)

lemma match_LitD:
  "match_items (Lit l # its) pv s = Some (w, gs) \<Longrightarrow>
   \<exists>rest ws. s = l @ rest \<and> match_items its (prev_after pv l) rest = Some (ws, gs) \<and> w = l @ ws"
proof -
  assume a: "match_items (Lit l # its) pv s = Some (w, gs)"
  then have t: "take (length l) s = l" by (simp add: match_Lit split: if_splits)
  then have s: "s = l @ drop (length l) s" by (metis append_take_drop_id)
  from a t obtain ws where "match_items its (prev_after pv l) (drop (length l) s) = Some (ws, gs)" "w = l @ ws"
    by (auto simp: match_Lit split: option.splits)
  then show ?thesis using s by blast
qed

lemma match_ClsD:
  "match_items (Cls p # its) pv s = Some (w, gs) \<Longrightarrow>
   \<exists>c cs ws. s = c # cs \<and> p c \<and> match_items its (Some c) cs = Some (ws, gs) \<and> w = c # ws"
  by (cases s) (auto simp: match_Cls split: if_splits option.splits)

lemma match_WordBD:
  "match_items (WordB # its) pv s = Some (w, gs) \<Longrightarrow>
   word_boundary pv s \<and> match_items its pv s = Some (w, gs)"
  by (simp add: match_WordB split: if_splits)

lemma attr_hit:
  "is_quote q \<Longrightarrow> is_quote q' \<Longrightarrow>
   match_items (attr_pat name old) pv (name @ q # old @ q' # rest) = Some (name @ q # old @ [q'], [])"
  by (simp add: attr_pat_def match_Lit_append match_Cls match_Nil)

lemma attr_matchD:
  assumes "match_items (attr_pat name old) pv s = Some (w, gs)"
  shows "\<exists>q q' rest. s = name @ q # old @ q' # rest \<and> is_quote q \<and> is_quote q' \<and>
           w = name @ q # old @ [q'] \<and> gs = []"
proof -
  from assms obtain s1 w1 where 1: "s = name @ s1" "w = name @ w1"
    "match_items [Cls is_quote, Lit old, Cls is_quote] (prev_after pv name) s1 = Some (w1, gs)"
    unfolding attr_pat_def using match_LitD by blast
  from 1(3) obtain q s2 w2 where 2: "s1 = q # s2" "is_quote q" "w1 = q # w2"
    "match_items [Lit old, Cls is_quote] (Some q) s2 = Some (w2, gs)"
    using match_ClsD by blast
  from 2(4) obtain s3 w3 where 3: "s2 = old @ s3" "w2 = old @ w3"
    "match_items [Cls is_quote] (prev_after (Some q) old) s3 = Some (w3, gs)"
    using match_LitD by blast
  from 3(3) obtain q' s4 w4 where 4: "s3 = q' # s4" "is_quote q'" "w3 = q' # w4"
    "match_items [] (Some q') s4 = Some (w4, gs)"
    using match_ClsD by blast
  from 4(4) have e: "w4 = []" "gs = []" by (simp_all add: match_Nil)
  show ?thesis
    by (rule exI [of _ q], rule exI [of _ q'], rule exI [of _ s4])
      (simp add: 1(1,2) 2(1,2,3) 3(1,2) 4(1,2,3) e)
qed

lemma call_matchD:
  assumes "match_items (call_pat name old) pv s = Some (w, gs)"
  shows "\<exists>q q' rest. s = name @ q # old @ q' # CHR '')'' # rest \<and> is_quote q \<and> is_quote q' \<and>
           word_boundary pv s \<and> w = name @ q # old @ [q', CHR '')''] \<and> gs = []"
proof -
  from assms have wb: "word_boundary pv s"
    and 0: "match_items [Lit name, Cls is_quote, Lit old, Cls is_quote, Lit '')''] pv s = Some (w, gs)"
    unfolding call_pat_def using match_WordBD by blast+
  from 0 obtain s1 w1 where 1: "s = name @ s1" "w = name @ w1"
    "match_items [Cls is_quote, Lit old, Cls is_quote, Lit '')''] (prev_after pv name) s1 = Some (w1, gs)"
    using match_LitD by blast
  from 1(3) obtain q s2 w2 where 2: "s1 = q # s2" "is_quote q" "w1 = q # w2"
    "match_items [Lit old, Cls is_quote, Lit '')''] (Some q) s2 = Some (w2, gs)"
    using match_ClsD by blast
  from 2(4) obtain s3 w3 where 3: "s2 = old @ s3" "w2 = old @ w3"
    "match_items [Cls is_quote, Lit '')''] (prev_after (Some q) old) s3 = Some (w3, gs)"
    using match_LitD by blast
  from 3(3) obtain q' s4 w4 where 4: "s3 = q' # s4" "is_quote q'" "w3 = q' # w4"
    "match_items [Lit '')''] (Some q') s4 = Some (w4, gs)"
    using match_ClsD by blast
  from 4(4) obtain s5 w5 where 5: "s4 = '')'' @ s5" "w4 = '')'' @ w5"
    "match_items [] (prev_after (Some q') '')'') s5 = Some (w5, gs)"
    using match_LitD by blast
  from 5(3) have e: "w5 = []" "gs = []" by (simp_all add: match_Nil)
  have s: "s = name @ q # old @ q' # CHR '')'' # s5" by (simp add: 1(1) 2(1) 3(1) 4(1) 5(1))
  show ?thesis
    by (rule exI [of _ q], rule exI [of _ q'], rule exI [of _ s5])
      (use wb s in \<open>simp add: 1(2) 2(2,3) 3(2) 4(2,3) 5(2) e\<close>)
qed


lemma call_hit:
  assumes "is_quote q" "is_quote q'" "word_boundary pv (name @ q # old @ q' # CHR '')'' # rest)"
  shows "match_items (call_pat name old) pv (name @ q # old @ q' # CHR '')'' # rest) =
     Some (name @ q # old @ [q', CHR '')''], [])"
proof -
  have 5: "\<And>p. match_items [Lit '')''] p (CHR '')'' # rest) = Some ('')'', [])"
    by (simp add: match_Lit match_Nil)
  have 4: "\<And>p. match_items [Cls is_quote, Lit '')''] p (q' # CHR '')'' # rest) = Some ([q', CHR '')''], [])"
    using assms(2) by (simp add: match_Cls 5)
  have 3: "\<And>p. match_items [Lit old, Cls is_quote, Lit '')''] p (old @ q' # CHR '')'' # rest) =
      Some (old @ [q', CHR '')''], [])"
    by (simp only: match_Lit_append 4 option.case prod.case)
  have 2: "\<And>p. match_items [Cls is_quote, Lit old, Cls is_quote, Lit '')''] p (q # old @ q' # CHR '')'' # rest) =
      Some (q # old @ [q', CHR '')''], [])"
    using assms(1) by (simp add: match_Cls 3)
  have 1: "\<And>p. match_items [Lit name, Cls is_quote, Lit old, Cls is_quote, Lit '')''] p
      (name @ q # old @ q' # CHR '')'' # rest) = Some (name @ q # old @ [q', CHR '')''], [])"
    by (simp only: match_Lit_append 2 option.case prod.case)
  show ?thesis unfolding call_pat_def match_WordB using assms(3) 1 by (simp only: if_True)
qed

lemma sel_hit:
  assumes "is_quote q" "is_quote q'" "any_char y"
    "word_boundary pv (name @ q # y # old @ q' # CHR '')'' # rest)"
  shows "match_items (sel_pat name old) pv (name @ q # y # old @ q' # CHR '')'' # rest) =
     Some (name @ q # y # old @ [q', CHR '')''], [])"
proof -
  have 5: "\<And>p. match_items [Lit '')''] p (CHR '')'' # rest) = Some ('')'', [])"
    by (simp add: match_Lit match_Nil)
  have 4: "\<And>p. match_items [Cls is_quote, Lit '')''] p (q' # CHR '')'' # rest) = Some ([q', CHR '')''], [])"
    using assms(2) by (simp add: match_Cls 5)
  have 3: "\<And>p. match_items [Lit old, Cls is_quote, Lit '')''] p (old @ q' # CHR '')'' # rest) =
      Some (old @ [q', CHR '')''], [])"
    by (simp only: match_Lit_append 4 option.case prod.case)
  have 2: "\<And>p. match_items [Cls any_char, Lit old, Cls is_quote, Lit '')''] p (y # old @ q' # CHR '')'' # rest) =
      Some (y # old @ [q', CHR '')''], [])"
    using assms(3) by (simp add: match_Cls 3)
  have 1: "\<And>p. match_items [Cls is_quote, Cls any_char, Lit old, Cls is_quote, Lit '')''] p
      (q # y # old @ q' # CHR '')'' # rest) = Some (q # y # old @ [q', CHR '')''], [])"
    by (subst match_Cls) (simp add: assms(1) 2)
  have 0: "\<And>p. match_items [Lit name, Cls is_quote, Cls any_char, Lit old, Cls is_quote, Lit '')''] p
      (name @ q # y # old @ q' # CHR '')'' # rest) = Some (name @ q # y # old @ [q', CHR '')''], [])"
    by (simp only: match_Lit_append 1 option.case prod.case)
  show ?thesis unfolding sel_pat_def match_WordB using assms(4) 0 by (simp only: if_True)
qed

lemma sel_matchD:
  assumes "match_items (sel_pat name old) pv s = Some (w, gs)"
  shows "\<exists>q y q' rest. s = name @ q # y # old @ q' # CHR '')'' # rest \<and> is_quote q \<and> is_quote q' \<and>
           any_char y \<and> word_boundary pv s \<and> w = name @ q # y # old @ [q', CHR '')''] \<and> gs = []"
proof -
  have a: "match_items (WordB # [Lit name, Cls is_quote, Cls any_char, Lit old, Cls is_quote, Lit '')'']) pv s = Some (w, gs)"
    using assms by (simp only: sel_pat_def)
  from match_WordBD [OF a] have wb: "word_boundary pv s"
    and 0: "match_items [Lit name, Cls is_quote, Cls any_char, Lit old, Cls is_quote, Lit '')''] pv s = Some (w, gs)"
    by blast+
  from match_LitD [OF 0] obtain s1 w1 where 1: "s = name @ s1" "w = name @ w1"
    "match_items [Cls is_quote, Cls any_char, Lit old, Cls is_quote, Lit '')''] (prev_after pv name) s1 = Some (w1, gs)"
    by blast
  from match_ClsD [OF 1(3)] obtain q s2 w2 where 2: "s1 = q # s2" "is_quote q" "w1 = q # w2"
    "match_items [Cls any_char, Lit old, Cls is_quote, Lit '')''] (Some q) s2 = Some (w2, gs)"
    by blast
  from match_ClsD [OF 2(4)] obtain y t2 v2 where mid: "s2 = y # t2" "any_char y" "w2 = y # v2"
    "match_items [Lit old, Cls is_quote, Lit '')''] (Some y) t2 = Some (v2, gs)"
    by blast
  from match_LitD [OF mid(4)] obtain s3 w3 where 3: "t2 = old @ s3" "v2 = old @ w3"
    "match_items [Cls is_quote, Lit '')''] (prev_after (Some y) old) s3 = Some (w3, gs)"
    by blast
  from match_ClsD [OF 3(3)] obtain q' s4 w4 where 4: "s3 = q' # s4" "is_quote q'" "w3 = q' # w4"
    "match_items [Lit '')''] (Some q') s4 = Some (w4, gs)"
    by blast
  from match_LitD [OF 4(4)] obtain s5 w5 where 5: "s4 = '')'' @ s5" "w4 = '')'' @ w5"
    "match_items [] (prev_after (Some q') '')'') s5 = Some (w5, gs)"
    by blast
  from 5(3) have e: "w5 = []" "gs = []" by (simp_all add: match_Nil)
  have s: "s = name @ q # y # old @ q' # CHR '')'' # s5"
    by (simp only: 1(1) 2(1) mid(1) 3(1) 4(1) 5(1) append_Cons append_Nil)
  have w: "w = name @ q # y # old @ [q', CHR '')'']"
    by (simp only: 1(2) 2(3) mid(3) 3(2) 4(3) 5(2) e append_Cons append_Nil)
  have "s = name @ q # y # old @ q' # CHR '')'' # s5 \<and> is_quote q \<and> is_quote q' \<and>
           any_char y \<and> word_boundary pv s \<and> w = name @ q # y # old @ [q', CHR '')''] \<and> gs = []"
    using s 2(2) 4(2) mid(2) wb w e(2) by (intro conjI)
  then show ?thesis by (intro exI)
qed

lemma quote_not_ident: "is_quote q \<Longrightarrow> \<not> is_ident q"
  by (auto simp: is_quote_def dquote_def squote_def is_ident_def is_alnum_def is_lower_def
        is_upper_def is_digit_def)

lemma ident_not_quote: "list_all is_ident r \<Longrightarrow> list_all not_quote r"
  using quote_not_ident by (auto simp: list_all_iff not_quote_def)

lemma strip_lit_iff: "strip_lit l s = Some t \<longleftrightarrow> s = l @ t"
  by (auto simp: strip_lit_def dest: take_dropD)

lemma strip_cls_iff: "strip_cls p s = Some t \<longleftrightarrow> (\<exists>c. s = c # t \<and> p c)"
  by (cases s) (auto simp: strip_cls_def)

lemma shape_repl_out: "shape_repl sh new gs = shape_out sh new"
proof (cases sh)
  case (Pair k name)
  then show ?thesis
    by (cases k) (simp_all add: shape_out_def attr_repl_def sel_repl_def call_repl_def)
qed

lemma middle_cases: "middle k y \<Longrightarrow> (k = Sel \<and> (\<exists>c. y = [c] \<and> any_char c)) \<or> (k \<noteq> Sel \<and> y = [])"
  by (cases k) (auto split: list.splits)

lemma shape_hit:
  assumes "is_quote q" "is_quote q'" "middle (fst sh) y"
    and "bounded (fst sh) \<longrightarrow> word_boundary pv (site_text sh q y old q' @ rest)"
  shows "match_items (shape_pat sh old) pv (site_text sh q y old q' @ rest) =
           Some (site_text sh q y old q', [])"
proof (cases sh)
  case (Pair k name)
  show ?thesis
  proof (cases k)
    case Attr
    then have "y = []" using assms(3) Pair by simp
    then show ?thesis using Pair Attr attr_hit [OF assms(1,2), of name old pv rest]
      by (simp add: site_text_def)
  next
    case Sel
    then obtain c where y: "y = [c]" "any_char c" using assms(3) Pair middle_cases by fastforce
    have "word_boundary pv (name @ q # c # old @ q' # CHR '')'' # rest)"
      using assms(4) Pair Sel y by (simp add: site_text_def)
    then show ?thesis using Pair Sel y sel_hit [OF assms(1,2) y(2), of pv name old rest]
      by (simp add: site_text_def)
  next
    case Call
    then have y: "y = []" using assms(3) Pair by simp
    have "word_boundary pv (name @ q # old @ q' # CHR '')'' # rest)"
      using assms(4) Pair Call y by (simp add: site_text_def)
    then show ?thesis using Pair Call y call_hit [OF assms(1,2), of pv name old rest]
      by (simp add: site_text_def)
  qed
qed

lemma shape_matchD:
  assumes "match_items (shape_pat sh old) pv s = Some (w, gs)"
  shows "(bounded (fst sh) \<longrightarrow> word_boundary pv s) \<and> gs = [] \<and>
     (\<exists>q y q' rest. is_quote q \<and> is_quote q' \<and> middle (fst sh) y \<and>
        s = site_text sh q y old q' @ rest \<and> w = site_text sh q y old q')"
proof (cases sh)
  case (Pair k name)
  show ?thesis
  proof (cases k)
    case Attr
    then have "match_items (attr_pat name old) pv s = Some (w, gs)" using assms Pair by simp
    from attr_matchD [OF this] obtain q q' rest where a: "s = name @ q # old @ q' # rest"
      "is_quote q" "is_quote q'" "w = name @ q # old @ [q']" "gs = []" by blast
    have "is_quote q \<and> is_quote q' \<and> middle (fst sh) [] \<and>
        s = site_text sh q [] old q' @ rest \<and> w = site_text sh q [] old q'"
      using a Pair Attr by (simp add: site_text_def)
    then have "\<exists>q y q' rest. is_quote q \<and> is_quote q' \<and> middle (fst sh) y \<and>
        s = site_text sh q y old q' @ rest \<and> w = site_text sh q y old q'" by (intro exI)
    then show ?thesis using a(5) Pair Attr by simp
  next
    case Sel
    then have "match_items (sel_pat name old) pv s = Some (w, gs)" using assms Pair by simp
    from sel_matchD [OF this] obtain q c q' rest where a: "s = name @ q # c # old @ q' # CHR '')'' # rest"
      "is_quote q" "is_quote q'" "any_char c" "word_boundary pv s"
      "w = name @ q # c # old @ [q', CHR '')'']" "gs = []" by blast
    have "is_quote q \<and> is_quote q' \<and> middle (fst sh) [c] \<and>
        s = site_text sh q [c] old q' @ rest \<and> w = site_text sh q [c] old q'"
      using a Pair Sel by (simp add: site_text_def)
    then have "\<exists>q y q' rest. is_quote q \<and> is_quote q' \<and> middle (fst sh) y \<and>
        s = site_text sh q y old q' @ rest \<and> w = site_text sh q y old q'" by (intro exI)
    then show ?thesis using a(5,7) by simp
  next
    case Call
    then have "match_items (call_pat name old) pv s = Some (w, gs)" using assms Pair by simp
    from call_matchD [OF this] obtain q q' rest where a: "s = name @ q # old @ q' # CHR '')'' # rest"
      "is_quote q" "is_quote q'" "word_boundary pv s"
      "w = name @ q # old @ [q', CHR '')'']" "gs = []" by blast
    have "is_quote q \<and> is_quote q' \<and> middle (fst sh) [] \<and>
        s = site_text sh q [] old q' @ rest \<and> w = site_text sh q [] old q'"
      using a Pair Call by (simp add: site_text_def)
    then have "\<exists>q y q' rest. is_quote q \<and> is_quote q' \<and> middle (fst sh) y \<and>
        s = site_text sh q y old q' @ rest \<and> w = site_text sh q y old q'" by (intro exI)
    then show ?thesis using a(4,6) by simp
  qed
qed

lemma site_atD:
  assumes "site_at sh pv s = Some (r, n)"
  shows "(bounded (fst sh) \<longrightarrow> word_boundary pv s) \<and> list_all is_ident r \<and>
     (\<exists>q y q' rest. is_quote q \<and> is_quote q' \<and> middle (fst sh) y \<and>
        s = site_text sh q y r q' @ rest \<and> n = length (site_text sh q y r q'))"
proof -
  from assms have wb: "bounded (fst sh) \<longrightarrow> word_boundary pv s"
    by (auto simp: site_at_def split: if_splits)
  from assms obtain s1 s2 s3 s4 s5 where
    a: "strip_lit (snd sh) s = Some s1" "strip_cls is_quote s1 = Some s2"
       "(if fst sh = Sel then strip_cls any_char s2 else Some s2) = Some s3"
       "strip_cls is_quote (dropWhile is_ident s3) = Some s4"
       "strip_lit (closing (fst sh)) s4 = Some s5"
       "r = takeWhile is_ident s3" "n = length s - length s5"
    by (auto simp: site_at_def split: if_splits option.splits)
  from a(1) have 1: "s = snd sh @ s1" by (simp add: strip_lit_iff)
  from a(2) obtain q where 2: "s1 = q # s2" "is_quote q" by (auto simp: strip_cls_iff)
  from a(4) obtain q' where 4: "dropWhile is_ident s3 = q' # s4" "is_quote q'"
    by (auto simp: strip_cls_iff)
  from a(5) have 5: "s4 = closing (fst sh) @ s5" by (simp add: strip_lit_iff)
  have 3: "s3 = r @ q' # s4" using 4(1) a(6) by (metis takeWhile_dropWhile_id)
  have r: "list_all is_ident r" using a(6) by (auto simp: list_all_iff dest: set_takeWhileD)
  obtain y where y: "s2 = y @ s3" "middle (fst sh) y"
  proof (cases "fst sh = Sel")
    case True
    then obtain c where "s2 = c # s3" "any_char c" using a(3) by (auto simp: strip_cls_iff)
    then have "s2 = [c] @ s3" "middle (fst sh) [c]" using True by simp_all
    then show ?thesis using that by blast
  next
    case False
    then have "s2 = [] @ s3" "middle (fst sh) []" using a(3) by (cases "fst sh", simp_all)+
    then show ?thesis using that by blast
  qed
  have s: "s = site_text sh q y r q' @ s5"
    by (simp add: site_text_def 1 2(1) y(1) 3 5)
  then have n: "n = length (site_text sh q y r q')" using a(7) by simp
  have "is_quote q \<and> is_quote q' \<and> middle (fst sh) y \<and>
        s = site_text sh q y r q' @ s5 \<and> n = length (site_text sh q y r q')"
    using 2(2) 4(2) y(2) s n by (intro conjI)
  then have "\<exists>q y q' rest. is_quote q \<and> is_quote q' \<and> middle (fst sh) y \<and>
        s = site_text sh q y r q' @ rest \<and> n = length (site_text sh q y r q')" by (intro exI)
  then show ?thesis using wb r by (intro conjI)
qed

lemma site_atI:
  assumes "is_quote q" "is_quote q'" "middle (fst sh) y" "list_all is_ident r"
    and "bounded (fst sh) \<longrightarrow> word_boundary pv (site_text sh q y r q' @ rest)"
  shows "site_at sh pv (site_text sh q y r q' @ rest) = Some (r, length (site_text sh q y r q'))"
proof -
  let ?s = "site_text sh q y r q' @ rest"
  let ?s3 = "r @ q' # closing (fst sh) @ rest"
  have nq: "\<not> is_ident q'" using assms(2) quote_not_ident by blast
  have 1: "strip_lit (snd sh) ?s = Some (q # y @ ?s3)"
    by (simp add: strip_lit_iff site_text_def)
  have 2: "strip_cls is_quote (q # y @ ?s3) = Some (y @ ?s3)"
    using assms(1) by (simp add: strip_cls_def)
  have 3: "(if fst sh = Sel then strip_cls any_char (y @ ?s3) else Some (y @ ?s3)) = Some ?s3"
    using middle_cases [OF assms(3)] by (auto simp: strip_cls_def)
  have tw: "takeWhile is_ident ?s3 = r" using assms(4) nq by (rule takeWhile_run)
  have dw: "dropWhile is_ident ?s3 = q' # closing (fst sh) @ rest" using assms(4) nq by (rule dropWhile_run)
  have 4: "strip_cls is_quote (dropWhile is_ident ?s3) = Some (closing (fst sh) @ rest)"
    using assms(2) by (simp add: dw strip_cls_def)
  have 5: "strip_lit (closing (fst sh)) (closing (fst sh) @ rest) = Some rest"
    by (simp add: strip_lit_iff)
  have len: "length ?s - length rest = length (site_text sh q y r q')" by simp
  have "site_at sh pv ?s =
      (if bounded (fst sh) \<and> \<not> word_boundary pv ?s then None
       else Some (r, length (site_text sh q y r q')))"
    unfolding site_at_def by (simp only: 1 2 3 4 5 tw len option.case)
  then show ?thesis using assms(5) by auto
qed

lemma names_table:
  "list_all (\<lambda>sh. list_all not_quote (snd sh) \<and> snd sh \<noteq> [] \<and> \<not> is_ident (last (snd sh)) \<and>
      hd (snd sh) \<noteq> CHR '')'' \<and> 2 \<le> length (snd sh) \<and>
      list_all (\<lambda>sh'. (snd sh = snd sh' \<longrightarrow> sh = sh') \<and>
         (length (snd sh) < length (snd sh') \<longrightarrow>
            drop (length (snd sh') - length (snd sh)) (snd sh') \<noteq> snd sh)) shapes) shapes"
  by code_simp

lemma name_facts:
  assumes "sh \<in> set shapes"
  shows "list_all not_quote (snd sh)" "snd sh \<noteq> []" "\<not> is_ident (last (snd sh))"
    "hd (snd sh) \<noteq> CHR '')''" "2 \<le> length (snd sh)"
  using names_table assms by (auto simp: list_all_iff)

lemma name_unique: "sh \<in> set shapes \<Longrightarrow> sh' \<in> set shapes \<Longrightarrow> snd sh = snd sh' \<Longrightarrow> sh = sh'"
  using names_table by (auto simp: list_all_iff)

lemma name_no_suffix:
  assumes "sh \<in> set shapes" "sh' \<in> set shapes" "snd sh' = n1 @ snd sh" "n1 \<noteq> []"
  shows False
proof -
  have "length (snd sh) < length (snd sh') \<longrightarrow>
      drop (length (snd sh') - length (snd sh)) (snd sh') \<noteq> snd sh"
    using names_table assms(1,2) by (auto simp: list_all_iff)
  moreover have "length (snd sh) < length (snd sh')" using assms(3,4) by simp
  moreover have "drop (length (snd sh') - length (snd sh)) (snd sh') = snd sh"
    using assms(3) by simp
  ultimately show False by blast
qed

lemma starts_fq:
  assumes "list_all not_quote name" "starts name z"
  shows "takeWhile not_quote z = name"
proof -
  from assms(2) obtain q rest where z: "z = name @ q # rest" "is_quote q" by (auto simp: starts_def)
  have "\<not> not_quote q" using z(2) by (simp add: not_quote_def)
  then show ?thesis using assms(1) z(1) by (simp add: takeWhile_run)
qed

lemma starts_site: "is_quote q \<Longrightarrow> starts (snd sh) (site_text sh q y r q' @ rest)"
  by (auto simp: starts_def site_text_def)

lemma shape_out_site:
  "shape_out sh tok = site_text sh dquote (if fst sh = Sel then ''.'' else []) tok dquote"
  by (simp add: shape_out_def site_text_def)

lemma middle_dot: "middle k (if k = Sel then ''.'' else [])"
  by (cases k) (simp_all add: any_char_def)

lemma dquote_quote: "is_quote dquote"
  by (simp add: is_quote_def)

lemma tail_forms:
  assumes "n @ Q # y @ i @ Q' # c = a @ b" "a \<noteq> []" "length y \<le> 1"
  shows "(\<exists>n1 n2. n = n1 @ n2 \<and> n1 \<noteq> [] \<and> b = n2 @ Q # y @ i @ Q' # c) \<or>
         (\<exists>e. y = [e] \<and> b = e # i @ Q' # c) \<or>
         (\<exists>i1 i2. i = i1 @ i2 \<and> b = i2 @ Q' # c) \<or>
         (\<exists>c1 c2. c = c1 @ c2 \<and> b = c2)"
proof -
  from assms(1) obtain us where
    "(n = a @ us \<and> us @ (Q # y @ i @ Q' # c) = b) \<or> (n @ us = a \<and> Q # y @ i @ Q' # c = us @ b)"
    by (auto simp: append_eq_append_conv2)
  then show ?thesis
  proof
    assume "n = a @ us \<and> us @ (Q # y @ i @ Q' # c) = b"
    then have "n = a @ us \<and> a \<noteq> [] \<and> b = us @ Q # y @ i @ Q' # c" using assms(2) by auto
    then show ?thesis by blast
  next
    assume h: "n @ us = a \<and> Q # y @ i @ Q' # c = us @ b"
    show ?thesis
    proof (cases us)
      case Nil
      then have "n = n @ [] \<and> n \<noteq> [] \<and> b = [] @ Q # y @ i @ Q' # c" using h assms(2) by auto
      then show ?thesis by blast
    next
      case (Cons u us1)
      then have r1: "y @ (i @ Q' # c) = us1 @ b" using h by simp
      then obtain vs where
        "(y = us1 @ vs \<and> vs @ (i @ Q' # c) = b) \<or> (y @ vs = us1 \<and> i @ Q' # c = vs @ b)"
        by (auto simp: append_eq_append_conv2)
      then show ?thesis
      proof
        assume g: "y = us1 @ vs \<and> vs @ (i @ Q' # c) = b"
        show ?thesis
        proof (cases vs)
          case Nil
          then have "i = [] @ i \<and> b = i @ Q' # c" using g by auto
          then show ?thesis by blast
        next
          case (Cons e vs1)
          then have "y = [e]" using g assms(3) by (cases us1) auto
          moreover have "vs = [e]" using Cons g assms(3) by (cases us1) auto
          ultimately have "y = [e] \<and> b = e # i @ Q' # c" using g by auto
          then show ?thesis by blast
        qed
      next
        assume g: "y @ vs = us1 \<and> i @ Q' # c = vs @ b"
        then obtain ws where
          "(i = vs @ ws \<and> ws @ (Q' # c) = b) \<or> (i @ ws = vs \<and> Q' # c = ws @ b)"
          by (auto simp: append_eq_append_conv2)
        then show ?thesis
        proof
          assume "i = vs @ ws \<and> ws @ (Q' # c) = b"
          then have "i = vs @ ws \<and> b = ws @ Q' # c" by auto
          then show ?thesis by blast
        next
          assume f: "i @ ws = vs \<and> Q' # c = ws @ b"
          show ?thesis
          proof (cases ws)
            case Nil
            then have "i = i @ [] \<and> b = [] @ Q' # c" using f by auto
            then show ?thesis by blast
          next
            case (Cons w ws1)
            then have "c = ws1 @ b" using f by simp
            then show ?thesis by blast
          qed
        qed
      qed
    qed
  qed
qed

lemma closing_cases: "closing k = [] \<or> closing k = '')''"
  by (cases k) simp_all

lemma middle_length: "middle k y \<Longrightarrow> length y \<le> 1"
  by (cases k) (auto split: list.splits)

lemma not_quote_append: "list_all not_quote (a @ b) \<Longrightarrow> list_all not_quote b"
  by simp

lemma inside_site:
  assumes sh: "sh \<in> set shapes" and sh': "sh' \<in> set shapes"
    and q: "is_quote q" "is_quote q'" and y: "middle (fst sh') y" and r: "list_all is_ident r"
    and ab: "site_text sh' q y r q' = a @ b" "a \<noteq> []" "b \<noteq> []"
  shows "\<not> starts (snd sh) (b @ z)"
proof
  assume st: "starts (snd sh) (b @ z)"
  let ?nm = "snd sh"
  have nq: "list_all not_quote ?nm" and ne: "?nm \<noteq> []" and li: "\<not> is_ident (last ?nm)"
    and hd: "hd ?nm \<noteq> CHR '')''" and len: "2 \<le> length ?nm"
    using name_facts [OF sh] by simp_all
  have fq: "takeWhile not_quote (b @ z) = ?nm" using nq st by (rule starts_fq)
  have nq1: "\<not> not_quote q" "\<not> not_quote q'" using q by (simp_all add: not_quote_def)
  have rq: "list_all not_quote r" using r by (rule ident_not_quote)
  have eq: "snd sh' @ q # y @ r @ q' # closing (fst sh') = a @ b"
    using ab(1) by (simp add: site_text_def)
  from tail_forms [OF eq ab(2) middle_length [OF y]]
  consider (name) n1 n2 where "snd sh' = n1 @ n2" "n1 \<noteq> []" "b = n2 @ q # y @ r @ q' # closing (fst sh')"
    | (mid) e where "y = [e]" "b = e # r @ q' # closing (fst sh')"
    | (run) i1 i2 where "r = i1 @ i2" "b = i2 @ q' # closing (fst sh')"
    | (close) c1 c2 where "closing (fst sh') = c1 @ c2" "b = c2"
    by blast
  then show False
  proof cases
    case name
    have "list_all not_quote n2" using name_facts(1) [OF sh'] name(1) by simp
    then have "takeWhile not_quote (n2 @ q # (y @ r @ q' # closing (fst sh') @ z)) = n2"
      using nq1(1) by (rule takeWhile_run)
    then have "?nm = n2" using fq name(3) by simp
    then have "snd sh' = n1 @ snd sh" using name(1) by simp
    then show False using name_no_suffix [OF sh sh'] name(2) by blast
  next
    case mid
    show False
    proof (cases "not_quote e")
      case False
      then have "takeWhile not_quote (b @ z) = []" using mid(2) by simp
      then show False using fq ne by simp
    next
      case True
      then have "list_all not_quote (e # r)" using rq by simp
      then have "takeWhile not_quote ((e # r) @ q' # (closing (fst sh') @ z)) = e # r"
        using nq1(2) by (rule takeWhile_run)
      then have nm: "?nm = e # r" using fq mid(2) by simp
      show False
      proof (cases r)
        case Nil
        then show False using nm len by simp
      next
        case (Cons r0 rs)
        then have "last ?nm = last r" using nm by simp
        moreover have "is_ident (last r)" using r Cons by (simp add: list_all_iff)
        ultimately show False using li by simp
      qed
    qed
  next
    case run
    have i2: "list_all is_ident i2" using r run(1) by simp
    then have "list_all not_quote i2" by (rule ident_not_quote)
    then have "takeWhile not_quote (i2 @ q' # (closing (fst sh') @ z)) = i2"
      using nq1(2) by (rule takeWhile_run)
    then have nm: "?nm = i2" using fq run(2) by simp
    then have "is_ident (last ?nm)" using i2 ne by (simp add: list_all_iff)
    then show False using li by simp
  next
    case close
    have "c2 = '')''"
      using closing_cases [of "fst sh'"] close ab(3) by (auto simp: append_eq_Cons_conv)
    then have bz: "b @ z = CHR '')'' # z" using close(2) by simp
    from st obtain q0 rest where "b @ z = ?nm @ q0 # rest" by (auto simp: starts_def)
    then have "hd (b @ z) = hd ?nm" using ne by simp
    then show False using bz hd by simp
  qed
qed

lemma find_siteD:
  "find_site shs pv s = Some (sh, r, n) \<Longrightarrow> sh \<in> set shs \<and> site_at sh pv s = Some (r, n)"
  by (induction shs) (auto split: option.splits)

lemma find_site_None: "find_site shs pv s = None \<Longrightarrow> sh \<in> set shs \<Longrightarrow> site_at sh pv s = None"
  by (induction shs) (auto split: option.splits)

lemma site_starts: "site_at sh pv s = Some (r, n) \<Longrightarrow> starts (snd sh) s"
proof -
  assume "site_at sh pv s = Some (r, n)"
  from site_atD [OF this] obtain q y q' rest where "is_quote q" "s = site_text sh q y r q' @ rest"
    by blast
  then show ?thesis using starts_site by simp
qed

lemma starts_unique:
  assumes "sh \<in> set shapes" "sh' \<in> set shapes" "starts (snd sh) s" "starts (snd sh') s"
  shows "sh = sh'"
proof -
  have "takeWhile not_quote s = snd sh" using name_facts(1) [OF assms(1)] assms(3) by (rule starts_fq)
  moreover have "takeWhile not_quote s = snd sh'" using name_facts(1) [OF assms(2)] assms(4) by (rule starts_fq)
  ultimately show ?thesis using name_unique [OF assms(1,2)] by simp
qed

lemma find_siteI:
  assumes "sh \<in> set shapes" "site_at sh pv s = Some (r, n)"
  shows "find_site shapes pv s = Some (sh, r, n)"
proof (cases "find_site shapes pv s")
  case None
  then have "site_at sh pv s = None" using assms(1) by (rule find_site_None)
  then show ?thesis using assms(2) by simp
next
  case (Some f)
  obtain sh0 r0 n0 where f: "f = (sh0, r0, n0)" by (cases f)
  have a: "sh0 \<in> set shapes" "site_at sh0 pv s = Some (r0, n0)" using find_siteD Some f by blast+
  have "sh0 = sh" using a(1) assms(1) site_starts [OF a(2)] site_starts [OF assms(2)] by (rule starts_unique)
  then show ?thesis using a(2) assms(2) Some f by simp
qed

lemma find_site_nostart:
  assumes "\<And>sh. sh \<in> set shapes \<Longrightarrow> \<not> starts (snd sh) s"
  shows "find_site shapes pv s = None"
proof (cases "find_site shapes pv s")
  case None
  then show ?thesis .
next
  case (Some f)
  obtain sh0 r0 n0 where f: "f = (sh0, r0, n0)" by (cases f)
  have a: "sh0 \<in> set shapes" "site_at sh0 pv s = Some (r0, n0)" using find_siteD Some f by blast+
  then show ?thesis using assms site_starts by blast
qed

lemma pass_copy_None:
  "find_site shapes pv (c # cs) = None \<Longrightarrow>
   html_single_pass m pv (c # cs) = c # html_single_pass m (Some c) cs"
  by simp

lemma pass_copy_unmapped:
  "find_site shapes pv (c # cs) = Some (sh, r, n) \<Longrightarrow> m sh r = None \<Longrightarrow>
   html_single_pass m pv (c # cs) = c # html_single_pass m (Some c) cs"
  by simp

lemma site_text_nonempty: "sh \<in> set shapes \<Longrightarrow> site_text sh q y r q' \<noteq> []"
  using name_facts(2) by (simp add: site_text_def)

lemma pass_site:
  assumes "sh \<in> set shapes" "site_at sh pv (w @ rest) = Some (r, length w)" "w \<noteq> []"
    and "m sh r = Some tok"
  shows "html_single_pass m pv (w @ rest) = shape_out sh tok @ html_single_pass m (Some (last w)) rest"
proof -
  obtain c cs where c: "w @ rest = c # cs" using assms(3) by (cases w) auto
  have f: "find_site shapes pv (c # cs) = Some (sh, r, length w)"
    using find_siteI [OF assms(1,2)] c by simp
  have "drop (length w - 1) cs = drop (length w) (c # cs)" using assms(3) by (cases w) auto
  also have "\<dots> = rest" using c by (metis append_eq_conv_conj)
  finally have d: "drop (length w - 1) cs = rest" .
  have t: "take (length w) (c # cs) = w" using c by (metis append_eq_conv_conj)
  have "html_single_pass m pv (c # cs) =
      shape_out sh tok @ html_single_pass m (Some (last (take (length w) (c # cs)))) (drop (length w - 1) cs)"
    using f assms(4) by simp
  then show ?thesis using c d t by simp
qed

lemma pass_nostart:
  assumes "\<And>sh. sh \<in> set shapes \<Longrightarrow> \<not> starts (snd sh) (c # cs)"
  shows "html_single_pass m pv (c # cs) = c # html_single_pass m (Some c) cs"
  using find_site_nostart [of "c # cs" pv] assms by (simp del: html_single_pass.simps add: pass_copy_None)

lemma pass_skip:
  "(\<And>i sh. i < length u \<Longrightarrow> sh \<in> set shapes \<Longrightarrow> \<not> starts (snd sh) (drop i u @ y)) \<Longrightarrow>
   html_single_pass m pv (u @ y) = u @ html_single_pass m (prev_after pv u) y"
proof (induction u arbitrary: pv)
  case Nil
  then show ?case by (simp add: prev_after_def)
next
  case (Cons c u)
  have here: "\<And>sh. sh \<in> set shapes \<Longrightarrow> \<not> starts (snd sh) (c # u @ y)"
    using Cons.prems [of 0] by simp
  have rest: "\<And>i sh. i < length u \<Longrightarrow> sh \<in> set shapes \<Longrightarrow> \<not> starts (snd sh) (drop i u @ y)"
    using Cons.prems [of "Suc _"] by simp
  have "html_single_pass m (Some c) (u @ y) = u @ html_single_pass m (prev_after (Some c) u) y"
    using rest by (rule Cons.IH)
  moreover have "prev_after (Some c) u = prev_after pv (c # u)" by (simp add: prev_after_def)
  moreover have "html_single_pass m pv (c # u @ y) = c # html_single_pass m (Some c) (u @ y)"
    using here by (rule pass_nostart)
  ultimately show ?case by simp
qed

lemma pass_prefix:
  "(\<And>i sh. i < j \<Longrightarrow> sh \<in> set shapes \<Longrightarrow> \<not> starts (snd sh) (drop i (html_single_pass m pv s))) \<Longrightarrow>
   take j (html_single_pass m pv s) = take j s"
proof (induction j arbitrary: pv s)
  case 0
  show ?case by simp
next
  case (Suc j)
  show ?case
  proof (cases s)
    case Nil
    then show ?thesis by simp
  next
    case (Cons c cs)
    have copy: "html_single_pass m pv (c # cs) = c # html_single_pass m (Some c) cs"
    proof (cases "find_site shapes pv (c # cs)")
      case None
      then show ?thesis by (rule pass_copy_None)
    next
      case (Some f)
      obtain sh r n where f: "f = (sh, r, n)" by (cases f)
      have a: "sh \<in> set shapes" "site_at sh pv (c # cs) = Some (r, n)" using find_siteD Some f by blast+
      show ?thesis
      proof (cases "m sh r")
        case None
        then show ?thesis using Some f pass_copy_unmapped by blast
      next
        case (Some tok)
        from site_atD [OF a(2)] obtain q y q' rest where
          w: "c # cs = site_text sh q y r q' @ rest" "n = length (site_text sh q y r q')"
          by blast
        have "html_single_pass m pv (site_text sh q y r q' @ rest) =
            shape_out sh tok @ html_single_pass m (Some (last (site_text sh q y r q'))) rest"
          using a(1) _ site_text_nonempty [OF a(1)] Some
        proof (rule pass_site)
          show "site_at sh pv (site_text sh q y r q' @ rest) = Some (r, length (site_text sh q y r q'))"
            using a(2) w by simp
        qed
        then have "starts (snd sh) (html_single_pass m pv (c # cs))"
          using w(1) dquote_quote by (simp add: shape_out_site starts_site)
        then have "starts (snd sh) (drop 0 (html_single_pass m pv s))" using Cons by simp
        then show ?thesis using Suc.prems [of 0 sh] a(1) by blast
      qed
    qed
    have "\<And>i sh. i < j \<Longrightarrow> sh \<in> set shapes \<Longrightarrow>
        \<not> starts (snd sh) (drop i (html_single_pass m (Some c) cs))"
      using Suc.prems [of "Suc _"] copy Cons by simp
    then have "take j (html_single_pass m (Some c) cs) = take j cs" by (rule Suc.IH)
    then show ?thesis using copy Cons by simp
  qed
qed

lemma word_boundary_before:
  "word_boundary pv s = (word_before pv \<noteq> (case s of [] \<Rightarrow> False | c # _ \<Rightarrow> is_word c))"
  by (simp add: word_boundary_def word_before_def)

lemma word_boundary_cong:
  "word_before pv' = word_before pv \<Longrightarrow> hd s' = hd s \<Longrightarrow> s \<noteq> [] \<Longrightarrow> s' \<noteq> [] \<Longrightarrow>
   word_boundary pv' s' = word_boundary pv s"
  by (cases s; cases s') (simp_all add: word_boundary_before)

lemma quote_not_word: "is_quote q \<Longrightarrow> \<not> is_word q"
  by (auto simp: is_quote_def dquote_def squote_def is_word_def is_alnum_def is_lower_def
        is_upper_def is_digit_def Let_def)

lemma paren_not_word: "\<not> is_word CHR '')''"
  by (simp add: is_word_def is_alnum_def is_lower_def is_upper_def is_digit_def Let_def)

lemma last_site_not_word: "is_quote q' \<Longrightarrow> \<not> is_word (last (site_text sh q y r q'))"
  using closing_cases [of "fst sh"] quote_not_word paren_not_word
  by (auto simp: site_text_def)

lemma ident_run_unique:
  assumes "list_all is_ident a" "list_all is_ident b" "\<not> is_ident c" "\<not> is_ident d"
    and "a @ c # p = b @ d # p'"
  shows "a = b"
proof -
  have "takeWhile is_ident (a @ c # p) = a" using assms(1,3) by (rule takeWhile_run)
  moreover have "takeWhile is_ident (b @ d # p') = b" using assms(2,4) by (rule takeWhile_run)
  ultimately show ?thesis using assms(5) by simp
qed

lemma match_starts:
  "match_items (shape_pat sh k) pv s = Some (w, gs) \<Longrightarrow> starts (snd sh) s"
proof -
  assume "match_items (shape_pat sh k) pv s = Some (w, gs)"
  from shape_matchD [OF this] obtain q y q' rest where "is_quote q" "s = site_text sh q y k q' @ rest"
    by blast
  then show ?thesis using starts_site by simp
qed

lemma no_match_inside:
  assumes "sh \<in> set shapes" "sh' \<in> set shapes" "is_quote q" "is_quote q'" "middle (fst sh') y"
    "list_all is_ident r" "0 < i" "i < length (site_text sh' q y r q')"
  shows "\<not> starts (snd sh) (drop i (site_text sh' q y r q') @ z)"
proof -
  let ?w = "site_text sh' q y r q'"
  have "?w = take i ?w @ drop i ?w" by simp
  moreover have "take i ?w \<noteq> []" using assms(7,8) by auto
  moreover have "drop i ?w \<noteq> []" using assms(8) by simp
  ultimately show ?thesis using inside_site [OF assms(1-6)] by blast
qed

lemma out_no_match:
  assumes sh: "sh \<in> set shapes" and sh0: "sh0 \<in> set shapes" and k: "list_all is_ident k"
    and tok: "list_all is_ident tok" "tok \<noteq> k" and i: "i < length (shape_out sh0 tok)"
  shows "match_items (shape_pat sh k) pv (drop i (shape_out sh0 tok) @ z) = None"
proof (rule ccontr)
  assume "match_items (shape_pat sh k) pv (drop i (shape_out sh0 tok) @ z) \<noteq> None"
  then obtain w gs where m: "match_items (shape_pat sh k) pv (drop i (shape_out sh0 tok) @ z) = Some (w, gs)"
    by auto
  let ?d = "if fst sh0 = Sel then ''.'' else []"
  have out: "shape_out sh0 tok = site_text sh0 dquote ?d tok dquote" by (rule shape_out_site)
  have st: "starts (snd sh) (drop i (site_text sh0 dquote ?d tok dquote) @ z)"
    using match_starts [OF m] out by simp
  show False
  proof (cases "i = 0")
    case False
    then have "0 < i" "i < length (site_text sh0 dquote ?d tok dquote)" using i out by simp_all
    then show False
      using no_match_inside [OF sh sh0 dquote_quote dquote_quote middle_dot tok(1)] st by blast
  next
    case True
    have "starts (snd sh0) (site_text sh0 dquote ?d tok dquote @ z)" using dquote_quote by (rule starts_site)
    then have e: "sh = sh0" using st True starts_unique [OF sh sh0] by simp
    from shape_matchD [OF m] obtain qa ya qb rest where a: "is_quote qa" "is_quote qb" "middle (fst sh) ya"
      "drop i (shape_out sh0 tok) @ z = site_text sh qa ya k qb @ rest" by blast
    have "?d @ tok @ dquote # closing (fst sh) @ z = ya @ k @ qb # closing (fst sh) @ rest"
      using a(4) True e out by (simp add: site_text_def)
    moreover have "length ?d = length ya" using middle_cases [OF a(3)] e by auto
    ultimately have "tok @ dquote # closing (fst sh) @ z = k @ qb # closing (fst sh) @ rest"
      by (metis append_eq_append_conv)
    then have "tok = k"
      using ident_run_unique [OF tok(1) k] quote_not_ident dquote_quote a(2) by blast
    then show False using tok(2) by simp
  qed
qed

lemma shape_repl_fun: "shape_repl sh new = (\<lambda>gs. shape_out sh new)"
  by (rule ext) (rule shape_repl_out)

lemma html_sub_step:
  assumes sh: "sh \<in> set shapes" and k: "list_all is_ident k" and fresh: "m sh k = None"
    and toks: "\<And>sh' r tok. m sh' r = Some tok \<Longrightarrow> list_all is_ident tok \<and> tok \<noteq> k"
  shows "word_before pv' = word_before pv \<Longrightarrow>
         sub_from (shape_pat sh k) (shape_repl sh new) pv' (html_single_pass m pv s) =
         html_single_pass (m(sh := (m sh)(k \<mapsto> new))) pv s"
proof (induction "length s" arbitrary: s pv pv' rule: less_induct)
  case less
  let ?m' = "m(sh := (m sh)(k \<mapsto> new))"
  let ?sub = "sub_from (shape_pat sh k) (shape_repl sh new)"
  show ?case
  proof (cases s)
    case Nil
    then show ?thesis by simp
  next
    case (Cons c cs)
    have ihcs: "?sub (Some c) (html_single_pass m (Some c) cs) = html_single_pass ?m' (Some c) cs"
      using less.hyps [of cs "Some c" "Some c"] Cons by simp
    show ?thesis
    proof (cases "\<exists>sh0 r0 n0 tok. find_site shapes pv s = Some (sh0, r0, n0) \<and> m sh0 r0 = Some tok")
      case True
      then obtain sh0 r0 n0 tok where f: "find_site shapes pv s = Some (sh0, r0, n0)"
        and mt: "m sh0 r0 = Some tok" by blast
      have sh0: "sh0 \<in> set shapes" and sa: "site_at sh0 pv s = Some (r0, n0)"
        using find_siteD [OF f] by simp_all
      from site_atD [OF sa] obtain q y q' rest where
        w: "s = site_text sh0 q y r0 q' @ rest" "n0 = length (site_text sh0 q y r0 q')"
        and qs: "is_quote q" "is_quote q'" by blast
      let ?w = "site_text sh0 q y r0 q'"
      have wne: "?w \<noteq> []" using sh0 by (rule site_text_nonempty)
      have sa': "site_at sh0 pv (?w @ rest) = Some (r0, length ?w)" using sa w by simp
      have tk: "list_all is_ident tok" "tok \<noteq> k" using toks [OF mt] by simp_all
      have ne: "(sh0, r0) \<noteq> (sh, k)" using mt fresh by auto
      have mt': "?m' sh0 r0 = Some tok" using mt ne by auto
      let ?out = "shape_out sh0 tok"
      have in_eq: "html_single_pass m pv s = ?out @ html_single_pass m (Some (last ?w)) rest"
        using pass_site [of sh0 pv ?w rest r0 m tok] sh0 sa' wne mt w(1) by simp
      have out_eq: "html_single_pass ?m' pv s = ?out @ html_single_pass ?m' (Some (last ?w)) rest"
        using pass_site [of sh0 pv ?w rest r0 ?m' tok] sh0 sa' wne mt' w(1) by simp
      have one: "?out \<noteq> []" using sh0 by (simp add: shape_out_site site_text_nonempty)
      have lrest: "length rest < length s" using w(1) wne by simp
      have "\<not> is_word (last ?out)" using dquote_quote by (simp add: shape_out_site last_site_not_word)
      moreover have "\<not> is_word (last ?w)" using qs(2) by (rule last_site_not_word)
      ultimately have wb: "word_before (Some (last ?out)) = word_before (Some (last ?w))"
        by (simp add: word_before_def)
      have "?sub pv' (?out @ html_single_pass m (Some (last ?w)) rest) =
          ?out @ ?sub (prev_after pv' ?out) (html_single_pass m (Some (last ?w)) rest)"
        using out_no_match [OF sh sh0 k tk] by (rule sub_from_skip)
      also have "prev_after pv' ?out = Some (last ?out)" using one by (simp add: prev_after_def)
      also have "?sub (Some (last ?out)) (html_single_pass m (Some (last ?w)) rest) =
          html_single_pass ?m' (Some (last ?w)) rest"
        using lrest wb by (rule less.hyps)
      finally show ?thesis using in_eq out_eq by simp
    next
      case False
      have in_eq: "html_single_pass m pv s = c # html_single_pass m (Some c) cs"
      proof (cases "find_site shapes pv (c # cs)")
        case None
        then show ?thesis using Cons by (simp only: pass_copy_None)
      next
        case (Some f)
        obtain sh0 r0 n0 where "f = (sh0, r0, n0)" by (cases f)
        then have f: "find_site shapes pv (c # cs) = Some (sh0, r0, n0)" using Some by simp
        then have "m sh0 r0 = None" using False Cons by (cases "m sh0 r0") auto
        then show ?thesis using f Cons by (simp only: pass_copy_unmapped)
      qed
      show ?thesis
      proof (cases "\<exists>n. site_at sh pv s = Some (k, n)")
        case True
        then obtain n where sa: "site_at sh pv s = Some (k, n)" by blast
        from site_atD [OF sa] obtain q y q' rest where
          w: "s = site_text sh q y k q' @ rest" "n = length (site_text sh q y k q')"
          and qs: "is_quote q" "is_quote q'" and md: "middle (fst sh) y"
          and bd: "bounded (fst sh) \<longrightarrow> word_boundary pv s" by blast
        let ?w = "site_text sh q y k q'"
        have wne: "?w \<noteq> []" using sh by (rule site_text_nonempty)
        have sa': "site_at sh pv (?w @ rest) = Some (k, length ?w)" using sa w by simp
        have lrest: "length rest < length s" using w(1) wne by simp
        have hdw: "?w = c # tl ?w" using w(1) wne Cons by (cases ?w) auto
        then have cs: "cs = tl ?w @ rest" using w(1) Cons by (metis append_Cons list.inject)
        have skip: "\<And>i sh0. i < length (tl ?w) \<Longrightarrow> sh0 \<in> set shapes \<Longrightarrow>
            \<not> starts (snd sh0) (drop i (tl ?w) @ rest)"
        proof -
          fix i sh0 assume i: "i < length (tl ?w)" and s0: "sh0 \<in> set shapes"
          have "drop i (tl ?w) = drop (Suc i) ?w" by (simp add: drop_Suc)
          moreover have "0 < Suc i" "Suc i < length ?w" using i by simp_all
          ultimately show "\<not> starts (snd sh0) (drop i (tl ?w) @ rest)"
            using no_match_inside [OF s0 sh qs md k, of "Suc i" rest] by simp
        qed
        have "html_single_pass m (Some c) (tl ?w @ rest) =
            tl ?w @ html_single_pass m (prev_after (Some c) (tl ?w)) rest"
          using skip by (rule pass_skip)
        moreover have "prev_after (Some c) (tl ?w) = Some (last ?w)"
        proof -
          have "last ?w = last (c # tl ?w)" using hdw by (rule arg_cong)
          then show ?thesis by (simp add: prev_after_def)
        qed
        ultimately have pin: "html_single_pass m pv s = ?w @ html_single_pass m (Some (last ?w)) rest"
          using in_eq cs hdw by (metis append_Cons)
        have "bounded (fst sh) \<longrightarrow>
            word_boundary pv' (?w @ html_single_pass m (Some (last ?w)) rest)"
        proof
          assume "bounded (fst sh)"
          then have "word_boundary pv s" using bd by simp
          moreover have "word_boundary pv' (?w @ html_single_pass m (Some (last ?w)) rest) = word_boundary pv s"
            using less.prems w(1) wne by (intro word_boundary_cong) simp_all
          ultimately show "word_boundary pv' (?w @ html_single_pass m (Some (last ?w)) rest)" by simp
        qed
        then have hit: "match_items (shape_pat sh k) pv' (?w @ html_single_pass m (Some (last ?w)) rest) =
            Some (?w, [])"
          using qs md by (intro shape_hit)
        have "?sub pv' (?w @ html_single_pass m (Some (last ?w)) rest) =
            shape_repl sh new [] @ ?sub (Some (last ?w)) (html_single_pass m (Some (last ?w)) rest)"
          using hit wne by (rule sub_from_Match)
        also have "?sub (Some (last ?w)) (html_single_pass m (Some (last ?w)) rest) =
            html_single_pass ?m' (Some (last ?w)) rest"
          using lrest by (rule less.hyps) simp
        finally have lhs: "?sub pv' (html_single_pass m pv s) =
            shape_out sh new @ html_single_pass ?m' (Some (last ?w)) rest"
          using pin by (simp add: shape_repl_fun)
        have "?m' sh k = Some new" by simp
        then have "html_single_pass ?m' pv (?w @ rest) =
            shape_out sh new @ html_single_pass ?m' (Some (last ?w)) rest"
          using pass_site [of sh pv ?w rest k ?m' new] sh sa' wne by blast
        then show ?thesis using lhs w(1) by simp
      next
        case nosite: False
        have nomatch: "match_items (shape_pat sh k) pv' (c # html_single_pass m (Some c) cs) = None"
        proof (rule ccontr)
          assume "match_items (shape_pat sh k) pv' (c # html_single_pass m (Some c) cs) \<noteq> None"
          then obtain w gs where mm: "match_items (shape_pat sh k) pv' (c # html_single_pass m (Some c) cs) = Some (w, gs)"
            by auto
          let ?p = "html_single_pass m (Some c) cs"
          from shape_matchD [OF mm] obtain q y q' rest where
            a: "is_quote q" "is_quote q'" "middle (fst sh) y" "c # ?p = site_text sh q y k q' @ rest"
            and bd: "bounded (fst sh) \<longrightarrow> word_boundary pv' (c # ?p)" by blast
          let ?w = "site_text sh q y k q'"
          have wne: "?w \<noteq> []" using sh by (rule site_text_nonempty)
          obtain j where j: "length ?w = Suc j" using wne by (cases ?w) auto
          have pre: "\<And>i sh0. i < j \<Longrightarrow> sh0 \<in> set shapes \<Longrightarrow> \<not> starts (snd sh0) (drop i ?p)"
          proof -
            fix i sh0 assume i: "i < j" and s0: "sh0 \<in> set shapes"
            have "drop i ?p = drop (Suc i) (c # ?p)" by simp
            also have "\<dots> = drop (Suc i) ?w @ rest" using a(4) i j by simp
            finally have "drop i ?p = drop (Suc i) ?w @ rest" .
            moreover have "0 < Suc i" "Suc i < length ?w" using i j by simp_all
            ultimately show "\<not> starts (snd sh0) (drop i ?p)"
              using no_match_inside [OF s0 sh a(1,2,3) k, of "Suc i" rest] by simp
          qed
          have "take j ?p = take j cs" using pre by (rule pass_prefix)
          then have "take (Suc j) (c # cs) = take (Suc j) (c # ?p)" by simp
          also have "\<dots> = ?w" using a(4) j by simp
          finally have "take (length ?w) (c # cs) = ?w" using j by simp
          then have ccs: "c # cs = ?w @ drop (length ?w) (c # cs)" by (metis append_take_drop_id)
          have "bounded (fst sh) \<longrightarrow> word_boundary pv (?w @ drop (length ?w) (c # cs))"
          proof
            assume "bounded (fst sh)"
            then have "word_boundary pv' (c # ?p)" using bd by simp
            moreover have "word_boundary pv' (c # ?p) = word_boundary pv (c # cs)"
              using less.prems by (intro word_boundary_cong) simp_all
            ultimately show "word_boundary pv (?w @ drop (length ?w) (c # cs))" using ccs by simp
          qed
          then have "site_at sh pv (?w @ drop (length ?w) (c # cs)) = Some (k, length ?w)"
            using a(1,2,3) k by (intro site_atI)
          then have "site_at sh pv s = Some (k, length ?w)" using ccs Cons by simp
          then show False using nosite by blast
        qed
        have lhs: "?sub pv' (html_single_pass m pv s) = c # html_single_pass ?m' (Some c) cs"
          using nomatch in_eq ihcs by (simp add: sub_from_Chr)
        have "html_single_pass ?m' pv (c # cs) = c # html_single_pass ?m' (Some c) cs"
        proof (cases "find_site shapes pv (c # cs)")
          case None
          then show ?thesis by (rule pass_copy_None)
        next
          case (Some f)
          obtain sh0 r0 n0 where "f = (sh0, r0, n0)" by (cases f)
          then have f: "find_site shapes pv (c # cs) = Some (sh0, r0, n0)" using Some by simp
          then have m0: "m sh0 r0 = None" using False Cons by (cases "m sh0 r0") auto
          have "site_at sh0 pv s = Some (r0, n0)" using find_siteD [OF f] Cons by simp
          then have "(sh0, r0) \<noteq> (sh, k)" using nosite by auto
          then have "?m' sh0 r0 = None" using m0 by auto
          then show ?thesis using f by (rule pass_copy_unmapped [rotated])
        qed
        then show ?thesis using lhs Cons by simp
      qed
    qed
  qed
qed

lemma replace_one_fold:
  "replace_one old new content =
     fold (\<lambda>sh c. sub_from (shape_pat sh old) (shape_repl sh new) None c) shapes content"
  by (simp add: replace_one_def shapes_def Let_def re_sub_sub_from)

lemma shapes_distinct: "distinct shapes"
  by (simp add: shapes_def)

lemma pass_cong:
  "(\<And>sh. sh \<in> set shapes \<Longrightarrow> m sh = m' sh) \<Longrightarrow>
   html_single_pass m pv s = html_single_pass m' pv s"
proof (induction "length s" arbitrary: s pv rule: less_induct)
  case less
  show ?case
  proof (cases s)
    case Nil
    then show ?thesis by simp
  next
    case (Cons c cs)
    have a: "html_single_pass m (Some c) cs = html_single_pass m' (Some c) cs"
      by (rule less.hyps) (simp_all add: Cons less.prems)
    show ?thesis
    proof (cases "find_site shapes pv (c # cs)")
      case None
      then show ?thesis using a Cons by (simp only: pass_copy_None)
    next
      case (Some f)
      obtain sh r n where "f = (sh, r, n)" by (cases f)
      then have f: "find_site shapes pv (c # cs) = Some (sh, r, n)" using Some by simp
      have sh: "sh \<in> set shapes" using find_siteD [OF f] by simp
      then have mm: "m sh r = m' sh r" using less.prems by simp
      show ?thesis
      proof (cases "m sh r")
        case None
        then have "m' sh r = None" using mm by simp
        then show ?thesis using None f a Cons by (simp only: pass_copy_unmapped)
      next
        case (Some tok)
        then have t': "m' sh r = Some tok" using mm by simp
        have "length (drop (n - 1) cs) < length s" using Cons by simp
        then have "html_single_pass m (Some (last (take n (c # cs)))) (drop (n - 1) cs) =
            html_single_pass m' (Some (last (take n (c # cs)))) (drop (n - 1) cs)"
          by (rule less.hyps) (simp add: less.prems)
        then show ?thesis using f Some t' Cons by simp
      qed
    qed
  qed
qed

lemma pass_empty: "html_single_pass (\<lambda>sh. Map.empty) pv s = s"
proof (induction s arbitrary: pv)
  case Nil
  show ?case by simp
next
  case (Cons c cs)
  then show ?case by (simp split: option.splits)
qed

lemma html_fold_shapes:
  assumes k: "list_all is_ident k" and new: "list_all is_ident new" "new \<noteq> k"
  shows "distinct shs \<Longrightarrow> set shs \<subseteq> set shapes \<Longrightarrow>
    (\<And>sh. sh \<in> set shs \<Longrightarrow> m sh k = None) \<Longrightarrow>
    (\<And>sh r tok. m sh r = Some tok \<Longrightarrow> list_all is_ident tok \<and> tok \<noteq> k) \<Longrightarrow>
    fold (\<lambda>sh c. sub_from (shape_pat sh k) (shape_repl sh new) None c) shs (html_single_pass m None s) =
    html_single_pass (\<lambda>sh. if sh \<in> set shs then (m sh)(k \<mapsto> new) else m sh) None s"
proof (induction shs arbitrary: m)
  case Nil
  show ?case by simp
next
  case (Cons sh shs)
  let ?m1 = "m(sh := (m sh)(k \<mapsto> new))"
  have sh: "sh \<in> set shapes" using Cons.prems(2) by simp
  have notin: "sh \<notin> set shs" using Cons.prems(1) by simp
  have step: "sub_from (shape_pat sh k) (shape_repl sh new) None (html_single_pass m None s) =
      html_single_pass ?m1 None s"
  proof (rule html_sub_step [OF sh k])
    show "m sh k = None" by (rule Cons.prems(3)) simp
    show "\<And>sh' r tok. m sh' r = Some tok \<Longrightarrow> list_all is_ident tok \<and> tok \<noteq> k"
      by (rule Cons.prems(4))
    show "word_before None = word_before None" by simp
  qed
  have ih: "fold (\<lambda>sh c. sub_from (shape_pat sh k) (shape_repl sh new) None c) shs (html_single_pass ?m1 None s) =
      html_single_pass (\<lambda>sh'. if sh' \<in> set shs then (?m1 sh')(k \<mapsto> new) else ?m1 sh') None s"
  proof (rule Cons.IH)
    show "distinct shs" using Cons.prems(1) by simp
    show "set shs \<subseteq> set shapes" using Cons.prems(2) by simp
  next
    fix sh' assume "sh' \<in> set shs"
    then show "?m1 sh' k = None" using notin Cons.prems(3) [of sh'] by auto
  next
    fix sh' r tok assume a: "?m1 sh' r = Some tok"
    show "list_all is_ident tok \<and> tok \<noteq> k"
    proof (cases "sh' = sh \<and> r = k")
      case True
      then have "tok = new" using a by simp
      then show ?thesis using new by simp
    next
      case False
      then have "m sh' r = Some tok" using a by (auto split: if_splits)
      then show ?thesis by (rule Cons.prems(4))
    qed
  qed
  have eq: "(\<lambda>sh'. if sh' \<in> set shs then (?m1 sh')(k \<mapsto> new) else ?m1 sh') =
      (\<lambda>sh'. if sh' \<in> set (sh # shs) then (m sh')(k \<mapsto> new) else m sh')"
    by (rule ext) (simp add: notin)
  show ?case using step ih eq by simp
qed

lemma replace_one_step:
  assumes k: "list_all is_ident k" and new: "list_all is_ident new" "new \<noteq> k"
    and fresh: "\<And>sh. m sh k = None"
    and toks: "\<And>sh r tok. m sh r = Some tok \<Longrightarrow> list_all is_ident tok \<and> tok \<noteq> k"
  shows "replace_one k new (html_single_pass m None s) =
         html_single_pass (\<lambda>sh. (m sh)(k \<mapsto> new)) None s"
proof -
  have "replace_one k new (html_single_pass m None s) =
      html_single_pass (\<lambda>sh. if sh \<in> set shapes then (m sh)(k \<mapsto> new) else m sh) None s"
    unfolding replace_one_fold
  proof (rule html_fold_shapes [OF k new shapes_distinct])
    show "set shapes \<subseteq> set shapes" by simp
    show "\<And>sh. sh \<in> set shapes \<Longrightarrow> m sh k = None" by (rule fresh)
    show "\<And>sh r tok. m sh r = Some tok \<Longrightarrow> list_all is_ident tok \<and> tok \<noteq> k" by (rule toks)
  qed
  also have "\<dots> = html_single_pass (\<lambda>sh. (m sh)(k \<mapsto> new)) None s"
    by (rule pass_cong) simp
  finally show ?thesis .
qed

lemma replace_html_fold:
  assumes "distinct (map fst reps)"
    and "\<And>k new. (k, new) \<in> set reps \<Longrightarrow>
           list_all is_ident k \<and> list_all is_ident new \<and> new \<notin> set (map fst reps)"
    and "\<And>c k. k \<in> set (map fst reps) \<Longrightarrow> m c k = None"
    and "\<And>c r tok. m c r = Some tok \<Longrightarrow> list_all is_ident tok \<and> tok \<notin> set (map fst reps)"
  shows "replace_classnames_ids (html_single_pass m None s) reps =
         html_single_pass (\<lambda>c. m c ++ map_of reps) None s"
  using assms
proof (induction reps arbitrary: m)
  case Nil
  show ?case by simp
next
  case (Cons kv reps)
  obtain k new where kv: "kv = (k, new)" by (cases kv)
  let ?m' = "\<lambda>c. (m c)(k \<mapsto> new)"
  have kn: "list_all is_ident k" "list_all is_ident new" "new \<notin> set (map fst (kv # reps))"
    using Cons.prems(2) [of k new] kv by simp_all
  have knew: "new \<noteq> k" using kn(3) kv by auto
  have kfresh: "k \<notin> set (map fst reps)" using Cons.prems(1) kv by simp
  have step: "replace_one k new (html_single_pass m None s) = html_single_pass ?m' None s"
  proof (rule replace_one_step [OF kn(1,2) knew])
    show "\<And>c. m c k = None" using Cons.prems(3) kv by simp
    show "\<And>c r tok. m c r = Some tok \<Longrightarrow> list_all is_ident tok \<and> tok \<noteq> k"
    proof -
      fix c r tok assume "m c r = Some tok"
      then have "list_all is_ident tok \<and> tok \<notin> set (map fst (kv # reps))" by (rule Cons.prems(4))
      then show "list_all is_ident tok \<and> tok \<noteq> k" using kv by auto
    qed
  qed
  have ih: "replace_classnames_ids (html_single_pass ?m' None s) reps =
      html_single_pass (\<lambda>c. ?m' c ++ map_of reps) None s"
  proof (rule Cons.IH)
    show "distinct (map fst reps)" using Cons.prems(1) by simp
    show "\<And>k' new'. (k', new') \<in> set reps \<Longrightarrow>
        list_all is_ident k' \<and> list_all is_ident new' \<and> new' \<notin> set (map fst reps)"
    proof -
      fix k' new' assume "(k', new') \<in> set reps"
      then have "(k', new') \<in> set (kv # reps)" by simp
      then have "list_all is_ident k' \<and> list_all is_ident new' \<and> new' \<notin> set (map fst (kv # reps))"
        by (rule Cons.prems(2))
      then show "list_all is_ident k' \<and> list_all is_ident new' \<and> new' \<notin> set (map fst reps)" by simp
    qed
    show "\<And>c k'. k' \<in> set (map fst reps) \<Longrightarrow> ?m' c k' = None"
    proof -
      fix c k' assume a: "k' \<in> set (map fst reps)"
      then have "k' \<in> set (map fst (kv # reps))" by simp
      then have "m c k' = None" by (rule Cons.prems(3))
      moreover have "k' \<noteq> k" using a kfresh by auto
      ultimately show "?m' c k' = None" by simp
    qed
    show "\<And>c r tok. ?m' c r = Some tok \<Longrightarrow> list_all is_ident tok \<and> tok \<notin> set (map fst reps)"
    proof -
      fix c r tok assume a: "?m' c r = Some tok"
      show "list_all is_ident tok \<and> tok \<notin> set (map fst reps)"
      proof (cases "r = k")
        case True
        then have "tok = new" using a by simp
        then show ?thesis using kn by simp
      next
        case False
        then have "m c r = Some tok" using a by simp
        then have "list_all is_ident tok \<and> tok \<notin> set (map fst (kv # reps))" by (rule Cons.prems(4))
        then show ?thesis by simp
      qed
    qed
  qed
  have "map_of reps k = None" using kfresh by (simp add: map_of_eq_None_iff)
  then have e: "(\<lambda>c. ?m' c ++ map_of reps) = (\<lambda>c. m c ++ map_of ((k, new) # reps))"
    by (auto simp: map_add_def fun_eq_iff split: option.splits)
  have "replace_classnames_ids (html_single_pass m None s) ((k, new) # reps) =
      replace_classnames_ids (replace_one k new (html_single_pass m None s)) reps" by simp
  also have "\<dots> = html_single_pass (\<lambda>c. ?m' c ++ map_of reps) None s" using step ih by simp
  also have "\<dots> = html_single_pass (\<lambda>c. m c ++ map_of ((k, new) # reps)) None s" by (simp only: e)
  finally show ?case by (simp only: kv)
qed

lemma html_rewriter_single_pass:
  assumes "css_names reps"
  shows "replace_classnames_ids content reps = html_single_pass (\<lambda>d. map_of reps) None content"
proof -
  have "replace_classnames_ids (html_single_pass (\<lambda>c. Map.empty) None content) reps =
      html_single_pass (\<lambda>c. Map.empty ++ map_of reps) None content"
  proof (rule replace_html_fold)
    show "distinct (map fst reps)" using assms by (simp add: css_names_def)
    show "\<And>k new. (k, new) \<in> set reps \<Longrightarrow>
        list_all is_ident k \<and> list_all is_ident new \<and> new \<notin> set (map fst reps)"
      using assms by (rule css_names_D)
  qed simp_all
  then show ?thesis by (simp add: pass_empty)
qed

lemma css_names_perm:
  assumes "css_names reps" and "distinct (map fst reps')" and "set reps' = set reps"
  shows "css_names reps'"
proof -
  have "set (map fst reps') = set (map fst reps)" using assms(3) by simp
  then show ?thesis using assms by (simp add: css_names_def list_all_iff)
qed

lemma css_order:
  assumes "css_names reps" and "distinct (map fst reps')" and "set reps' = set reps"
  shows "replace_classnames_ids_css content reps' = replace_classnames_ids_css content reps"
proof -
  have d: "distinct (map fst reps)" using assms(1) by (simp add: css_names_def)
  have "map_of reps' = map_of reps" using assms(2,3) d by (simp add: map_of_inject_set)
  then show ?thesis
    using css_rewriter_single_pass [OF assms(1)] css_rewriter_single_pass [OF css_names_perm [OF assms]]
    by simp
qed

lemma html_order:
  assumes "css_names reps" and "distinct (map fst reps')" and "set reps' = set reps"
  shows "replace_classnames_ids content reps' = replace_classnames_ids content reps"
proof -
  have d: "distinct (map fst reps)" using assms(1) by (simp add: css_names_def)
  have "map_of reps' = map_of reps" using assms(2,3) d by (simp add: map_of_inject_set)
  then show ?thesis
    using html_rewriter_single_pass [OF assms(1)] html_rewriter_single_pass [OF css_names_perm [OF assms]]
    by simp
qed
subsection \<open>Order of the substitutions\<close>

lemma order_example_keys_found:
  "find_classnames_ids (''class='' @ [dquote] @ ''id='' @ [squote] @ ''a'' @ [squote] @ [dquote]) =
     ([''id=''], [''a''])"
  by code_simp

text \<open>
  Claim C8 as stated fails for both rewriters. In a stylesheet the key \<open>a\<close> is a part of the
  key \<open>a b\<close>, and whichever of the two comes first in the dictionary rewrites \<open>.a b {\<close>.
  In a page, the scanner takes the keys \<open>id=\<close> and \<open>a\<close> from a class attribute whose value
  is \<open>id='a'\<close>; the substitution for \<open>id=\<close> removes the quotes that the one for \<open>a\<close> needs,
  so the output depends on which of them runs first.
\<close>

theorem rewriters_order_matters:
  "replace_classnames_ids_css ''.a b {'' [(''a'', ''Aaaaaaa1''), (''a b'', ''Bbbbbbb2'')] \<noteq>
   replace_classnames_ids_css ''.a b {'' [(''a b'', ''Bbbbbbb2''), (''a'', ''Aaaaaaa1'')] \<and>
   replace_classnames_ids (''class='' @ [dquote] @ ''id='' @ [squote] @ ''a'' @ [squote] @ [dquote])
       [(''id='', ''Aaaaaaa1''), (''a'', ''Bbbbbbb2'')] \<noteq>
   replace_classnames_ids (''class='' @ [dquote] @ ''id='' @ [squote] @ ''a'' @ [squote] @ [dquote])
       [(''a'', ''Bbbbbbb2''), (''id='', ''Aaaaaaa1'')]"
  by code_simp

text \<open>
  Claim C8, as amended. For a dictionary with distinct keys, whose keys and tokens consist
  of identifier characters and in which no token is a key, every order of the dictionary
  gives the same output, for the rewriter of pages and scripts and for the rewriter of
  stylesheets alike.
\<close>

theorem rewriters_order_independent:
  assumes "css_names reps" and "distinct (map fst reps')" and "set reps' = set reps"
  shows "replace_classnames_ids content reps' = replace_classnames_ids content reps \<and>
         replace_classnames_ids_css content reps' = replace_classnames_ids_css content reps"
  using html_order [OF assms] css_order [OF assms] by simp

theorem rewriters_order_independent_witness:
  "replace_classnames_ids (''<a class='' @ [squote] @ ''hero'' @ [squote] @ '' id='' @ [dquote] @ ''nav'' @ [dquote] @ ''>'')
       [(''nav'', ''Zz99Yy88''), (''hero'', ''Ab12Cd34'')] =
   replace_classnames_ids (''<a class='' @ [squote] @ ''hero'' @ [squote] @ '' id='' @ [dquote] @ ''nav'' @ [dquote] @ ''>'')
       [(''hero'', ''Ab12Cd34''), (''nav'', ''Zz99Yy88'')] \<and>
   replace_classnames_ids_css ''.hero { } #nav,'' [(''nav'', ''Zz99Yy88''), (''hero'', ''Ab12Cd34'')] =
   replace_classnames_ids_css ''.hero { } #nav,'' [(''hero'', ''Ab12Cd34''), (''nav'', ''Zz99Yy88'')]"
proof -
  have "distinct (map fst [(''nav'', ''Zz99Yy88''), (''hero'', ''Ab12Cd34'')])" by simp
  moreover have "set [(''nav'', ''Zz99Yy88''), (''hero'', ''Ab12Cd34'')] =
      set [(''hero'', ''Ab12Cd34''), (''nav'', ''Zz99Yy88'')]" by (simp add: insert_commute)
  ultimately show ?thesis
    using rewriters_order_independent [OF example_css_names,
      of "[(''nav'', ''Zz99Yy88''), (''hero'', ''Ab12Cd34'')]"] by blast
qed

end
